theory Spec2Isabelle
  imports Main
begin

section \<open>Strings and POSIX paths as the Python library has them\<close>

text \<open>
  The module works on \<^verbatim>\<open>pathlib.Path\<close> objects and on their string form. A path is
  modelled the way \<^verbatim>\<open>PurePosixPath\<close> stores it: a root (\<^verbatim>\<open>""\<close>, \<^verbatim>\<open>"/"\<close> or \<^verbatim>\<open>"//"\<close>) and
  the list of its components. Exceptions are values of \<open>error\<close>.
\<close>

datatype error =
    ValueError string
  | FileNotFoundError string
  | KeyError
  | TypeError
  | IndexError
  | NotebookError

text \<open>\<^verbatim>\<open>s.split(c)\<close> for a one-character separator: never the empty list.\<close>

fun split_on :: "char \<Rightarrow> string \<Rightarrow> string list" where
  "split_on c [] = [[]]"
| "split_on c (x # xs) =
     (if x = c then [] # split_on c xs
      else (case split_on c xs of
              [] \<Rightarrow> [[x]]
            | w # ws \<Rightarrow> (x # w) # ws))"

text \<open>\<^verbatim>\<open>sep.join(xs)\<close>.\<close>

fun join :: "string \<Rightarrow> string list \<Rightarrow> string" where
  "join sep [] = []"
| "join sep [x] = x"
| "join sep (x # y # ys) = x @ sep @ join sep (y # ys)"

text \<open>\<^verbatim>\<open>s.rfind(c)\<close>: the index of the last occurrence, \<open>None\<close> for Python's \<^verbatim>\<open>-1\<close>.\<close>

fun rfind :: "char \<Rightarrow> string \<Rightarrow> nat option" where
  "rfind c [] = None"
| "rfind c (x # xs) =
     (case rfind c xs of
        Some i \<Rightarrow> Some (Suc i)
      | None \<Rightarrow> if x = c then Some 0 else None)"

text \<open>\<^verbatim>\<open>a in b\<close> on strings: \<open>a\<close> occurs in \<open>b\<close> as a contiguous substring.\<close>

fun startswith :: "string \<Rightarrow> string \<Rightarrow> bool" where
  "startswith s [] = True"
| "startswith [] (p # ps) = False"
| "startswith (x # xs) (p # ps) = (x = p \<and> startswith xs ps)"

fun str_contains :: "string \<Rightarrow> string \<Rightarrow> bool" where
  "str_contains [] a = (a = [])"
| "str_contains (x # xs) a = (startswith (x # xs) a \<or> str_contains xs a)"

datatype path = Path (root: string) (parts: "string list")

text \<open>
  \<^verbatim>\<open>Path(s)\<close>: exactly two leading slashes are kept as the root \<^verbatim>\<open>"//"\<close>, any other number
  of leading slashes is the root \<^verbatim>\<open>"/"\<close>; empty components and \<^verbatim>\<open>"."\<close> components are
  dropped, \<^verbatim>\<open>".."\<close> is kept.
\<close>

definition parse_root :: "string \<Rightarrow> string" where
  "parse_root s =
     (if startswith s ''//'' \<and> \<not> startswith s ''///'' then ''//''
      else if startswith s ''/'' then ''/''
      else [])"

definition parse_path :: "string \<Rightarrow> path" where
  "parse_path s =
     Path (parse_root s) (filter (\<lambda>x. x \<noteq> [] \<and> x \<noteq> ''.'') (split_on CHR ''/'' s))"

text \<open>\<^verbatim>\<open>str(p)\<close>.\<close>

definition path_str :: "path \<Rightarrow> string" where
  "path_str p =
     (if root p = [] \<and> parts p = [] then ''.''
      else root p @ join ''/'' (parts p))"

text \<open>\<^verbatim>\<open>p.name\<close>: the last component, empty when there is none.\<close>

definition path_name :: "path \<Rightarrow> string" where
  "path_name p = (if parts p = [] then [] else last (parts p))"

text \<open>
  \<^verbatim>\<open>p.suffix\<close>: from the last dot of the name on, unless that dot is the first or the
  last character of the name (\<^verbatim>\<open>pathlib\<close> before Python 3.14).
\<close>

definition name_suffix :: "string \<Rightarrow> string" where
  "name_suffix nm =
     (case rfind CHR ''.'' nm of
        None \<Rightarrow> []
      | Some i \<Rightarrow> if 0 < i \<and> Suc i < length nm then drop i nm else [])"

definition path_suffix :: "path \<Rightarrow> string" where
  "path_suffix p = name_suffix (path_name p)"

text \<open>
  \<^verbatim>\<open>p.with_suffix("")\<close>: raises \<^verbatim>\<open>ValueError\<close> on a path with an empty name, otherwise cuts
  the suffix off the last component (\<open>cut_suffix\<close>).
\<close>

definition name_stem :: "string \<Rightarrow> string" where
  "name_stem nm = take (length nm - length (name_suffix nm)) nm"

definition cut_suffix :: "path \<Rightarrow> path" where
  "cut_suffix p = Path (root p) (butlast (parts p) @ [name_stem (path_name p)])"

definition with_suffix_empty :: "path \<Rightarrow> error + path" where
  "with_suffix_empty p =
     (if path_name p = [] then Inl (ValueError (path_str p @ '' has an empty name''))
      else Inr (cut_suffix p))"

text \<open>\<^verbatim>\<open>p.parent\<close>: a path without components is its own parent.\<close>

definition path_parent :: "path \<Rightarrow> path" where
  "path_parent p = (if parts p = [] then p else Path (root p) (butlast (parts p)))"

text \<open>The child path that \<^verbatim>\<open>p.iterdir()\<close> yields for the directory entry \<open>n\<close>.\<close>

definition path_child :: "path \<Rightarrow> string \<Rightarrow> path" where
  "path_child p n = Path (root p) (parts p @ [n])"

subsection \<open>\<^verbatim>\<open>os.path\<close> on POSIX\<close>

text \<open>\<^verbatim>\<open>os.path.join(a, b)\<close>.\<close>

definition os_join :: "string \<Rightarrow> string \<Rightarrow> string" where
  "os_join a b =
     (if startswith b ''/'' then b
      else if a = [] \<or> (a \<noteq> [] \<and> last a = CHR ''/'') then a @ b
      else a @ ''/'' @ b)"

text \<open>
  The loop of \<^verbatim>\<open>os.path.normpath\<close> over the components: \<open>initial\<close> says that the path
  starts with a slash, \<open>new_comps\<close> is the list built so far.
\<close>

fun norm_comps :: "bool \<Rightarrow> string list \<Rightarrow> string list \<Rightarrow> string list" where
  "norm_comps initial new_comps [] = new_comps"
| "norm_comps initial new_comps (c # comps) =
     (if c = [] \<or> c = ''.'' then norm_comps initial new_comps comps
      else if c \<noteq> ''..'' \<or> (\<not> initial \<and> new_comps = [])
                \<or> (new_comps \<noteq> [] \<and> last new_comps = ''..'')
        then norm_comps initial (new_comps @ [c]) comps
      else if new_comps \<noteq> [] then norm_comps initial (butlast new_comps) comps
      else norm_comps initial new_comps comps)"

definition normpath :: "string \<Rightarrow> string" where
  "normpath p =
     (if p = [] then ''.''
      else let r = join ''/'' (norm_comps (startswith p ''/'') [] (split_on CHR ''/'' p));
               r' = parse_root p @ r
           in if r' = [] then ''.'' else r')"

text \<open>\<^verbatim>\<open>os.path.abspath(p)\<close> in a process whose working directory is \<open>cwd\<close>.\<close>

definition abspath :: "string \<Rightarrow> string \<Rightarrow> string" where
  "abspath cwd p = normpath (if startswith p ''/'' then p else os_join cwd p)"

text \<open>The length of the common prefix of two lists (\<^verbatim>\<open>commonprefix\<close> on two lists).\<close>

fun common_len :: "string list \<Rightarrow> string list \<Rightarrow> nat" where
  "common_len (x # xs) (y # ys) = (if x = y then Suc (common_len xs ys) else 0)"
| "common_len xs ys = 0"

definition abs_list :: "string \<Rightarrow> string \<Rightarrow> string list" where
  "abs_list cwd p = filter (\<lambda>x. x \<noteq> []) (split_on CHR ''/'' (abspath cwd p))"

text \<open>
  \<^verbatim>\<open>os.path.relpath(path, start)\<close>: a missing or empty \<open>path\<close> raises (\<^verbatim>\<open>ValueError\<close>; later
  Python versions raise \<^verbatim>\<open>TypeError\<close> for \<^verbatim>\<open>None\<close>); otherwise as many \<^verbatim>\<open>..\<close> as \<open>start\<close> has components beyond the common prefix, then the
  rest of \<open>path\<close>, joined with \<^verbatim>\<open>os.path.join\<close> one after the other (\<^verbatim>\<open>.\<close> when there is
  nothing to join).
\<close>

definition rel_list :: "string \<Rightarrow> string \<Rightarrow> string \<Rightarrow> string list" where
  "rel_list cwd p start =
     (let start_list = abs_list cwd start;
          path_list = abs_list cwd p;
          i = common_len start_list path_list
      in replicate (length start_list - i) ''..'' @ drop i path_list)"

definition relative :: "string \<Rightarrow> string \<Rightarrow> string \<Rightarrow> string" where
  "relative cwd p start =
     (if rel_list cwd p start = [] then ''.''
      else foldl os_join (hd (rel_list cwd p start)) (tl (rel_list cwd p start)))"

definition relpath :: "string \<Rightarrow> string option \<Rightarrow> string \<Rightarrow> error + string" where
  "relpath cwd path start =
     (case path of
        None \<Rightarrow> Inl (ValueError ''no path specified'')
      | Some p \<Rightarrow>
          if p = [] then Inl (ValueError ''no path specified'')
          else Inr (relative cwd p start))"

section \<open>Tree nodes and the lookup\<close>

text \<open>
  A node is a dictionary with the keys \<^verbatim>\<open>file\<close>, \<^verbatim>\<open>title\<close>, \<^verbatim>\<open>name\<close>, \<^verbatim>\<open>numbered\<close> and
  \<^verbatim>\<open>pages\<close>; \<open>None\<close> is a key that is absent. The table of contents is one node or a list
  of nodes.
\<close>

datatype node =
  Node (node_file: "string option") (node_title: "string option")
       (node_name: "string option") (numbered: bool) (pages: "node list option")

datatype toc = TocDict node | TocList "node list"

text \<open>\<^verbatim>\<open>page["pages"] = ps\<close>.\<close>

definition with_pages :: "node \<Rightarrow> node list \<Rightarrow> node" where
  "with_pages parent ps =
     Node (node_file parent) (node_title parent) (node_name parent) (numbered parent) (Some ps)"

text \<open>\<^verbatim>\<open>page.get("pages", [])\<close>.\<close>

definition get_pages :: "node \<Rightarrow> node list" where
  "get_pages page = (case pages page of None \<Rightarrow> [] | Some ps \<Rightarrow> ps)"

text \<open>
  \<^verbatim>\<open>_no_suffix\<close>: a string loses its suffix (\<^verbatim>\<open>str(Path(path).with_suffix(""))\<close>), anything
  else is returned as it is.
\<close>

definition no_suffix_str :: "string \<Rightarrow> error + string" where
  "no_suffix_str s =
     (case with_suffix_empty (parse_path s) of
        Inl e \<Rightarrow> Inl e
      | Inr q \<Rightarrow> Inr (path_str q))"

definition no_suffix :: "string option \<Rightarrow> error + string option" where
  "no_suffix p =
     (case p of
        None \<Rightarrow> Inr None
      | Some s \<Rightarrow>
          (case no_suffix_str s of
             Inl e \<Rightarrow> Inl e
           | Inr q \<Rightarrow> Inr (Some q)))"

function find_pages :: "node list \<Rightarrow> string \<Rightarrow> error + node option" where
  "find_pages [] nm = Inr None"
| "find_pages (page # rest) nm =
     (case no_suffix (node_file page) of
        Inl e \<Rightarrow> Inl e
      | Inr f \<Rightarrow>
          if f = Some nm then Inr (Some page)
          else (case find_pages (get_pages page) nm of
                  Inl e \<Rightarrow> Inl e
                | Inr (Some found) \<Rightarrow> Inr (Some found)
                | Inr None \<Rightarrow> find_pages rest nm))"
  by pat_completeness auto

lemma size_get_pages: "size_list size (get_pages page) \<le> size page"
  by (cases page) (simp add: get_pages_def split: option.split)

termination find_pages
  by (relation "measure (\<lambda>(ps, nm). size_list size ps)")
     (auto simp: less_Suc_eq_le intro: trans_le_add1 [OF size_get_pages])

text \<open>\<^verbatim>\<open>find_name\<close>: a single dictionary is searched as a one-element list.\<close>

fun find_name :: "toc \<Rightarrow> string \<Rightarrow> error + node option" where
  "find_name (TocDict page) nm = find_pages [page] nm"
| "find_name (TocList ps) nm = find_pages ps nm"

text \<open>
  The nodes of a forest in depth-first pre-order: a node, then the nodes below its
  \<^verbatim>\<open>pages\<close>, then its next sibling.
\<close>

function preorder :: "node list \<Rightarrow> node list" where
  "preorder [] = []"
| "preorder (page # rest) = page # preorder (get_pages page) @ preorder rest"
  by pat_completeness auto
termination
  by (relation "measure (size_list size)")
     (auto simp: less_Suc_eq_le intro: trans_le_add1 [OF size_get_pages])

fun toc_nodes :: "toc \<Rightarrow> node list" where
  "toc_nodes (TocDict page) = preorder [page]"
| "toc_nodes (TocList ps) = preorder ps"

text \<open>The suffix-stripped \<^verbatim>\<open>file\<close> of a node is the identifier \<open>X\<close>.\<close>

definition file_is :: "string \<Rightarrow> node \<Rightarrow> bool" where
  "file_is X page = (no_suffix (node_file page) = Inr (Some X))"

text \<open>
  Stripping the suffix of a node's \<^verbatim>\<open>file\<close> does not raise: the value is not a string, or
  it is a path with a last component.
\<close>

definition strippable :: "node \<Rightarrow> bool" where
  "strippable page = (case no_suffix (node_file page) of Inl e \<Rightarrow> False | Inr f \<Rightarrow> True)"

subsection \<open>The lookup is a pre-order scan\<close>

text \<open>
  Whatever the tree holds, the lookup behaves as one left-to-right pass over the
  pre-order list of nodes that stops at the first node whose \<^verbatim>\<open>file\<close> cannot be stripped
  (the exception propagates) or matches.
\<close>

fun scan :: "string \<Rightarrow> node list \<Rightarrow> error + node option" where
  "scan X [] = Inr None"
| "scan X (page # rest) =
     (case no_suffix (node_file page) of
        Inl e \<Rightarrow> Inl e
      | Inr f \<Rightarrow> if f = Some X then Inr (Some page) else scan X rest)"

lemma scan_append:
  "scan X (xs @ ys) =
     (case scan X xs of Inl e \<Rightarrow> Inl e | Inr (Some p) \<Rightarrow> Inr (Some p) | Inr None \<Rightarrow> scan X ys)"
  by (induction xs) (auto split: sum.splits option.splits)

lemma find_pages_scan: "find_pages ps X = scan X (preorder ps)"
proof (induction ps X rule: find_pages.induct)
  case (1 nm)
  show ?case by simp
next
  case (2 page rest nm)
  show ?case
  proof (cases "no_suffix (node_file page)")
    case (Inl e)
    then show ?thesis by simp
  next
    case (Inr f)
    show ?thesis
    proof (cases "f = Some nm")
      case True
      with Inr show ?thesis by simp
    next
      case False
      with Inr 2 show ?thesis
        by (simp add: scan_append split: sum.splits option.splits)
    qed
  qed
qed

lemma scan_no_match:
  "\<forall>n\<in>set ns. strippable n \<Longrightarrow> \<forall>n\<in>set ns. \<not> file_is X n \<Longrightarrow> scan X ns = Inr None"
  by (induction ns) (auto simp: strippable_def file_is_def split: sum.splits)

lemma scan_first_match:
  "\<forall>n\<in>set pre. strippable n \<Longrightarrow> \<forall>n\<in>set pre. \<not> file_is X n \<Longrightarrow> file_is X page
   \<Longrightarrow> scan X (pre @ page # post) = Inr (Some page)"
  by (induction pre) (auto simp: strippable_def file_is_def split: sum.splits)

text \<open>
  C1. For every tree (one node or a list of sibling nodes) whose \<^verbatim>\<open>file\<close> values can be
  suffix-stripped, and every identifier \<open>X\<close>: \<^verbatim>\<open>find_name\<close> returns \<^verbatim>\<open>None\<close> when no node
  anywhere in the tree has \<open>X\<close> as its suffix-stripped \<^verbatim>\<open>file\<close>, and otherwise it returns
  the first node in depth-first pre-order (a node, then its \<^verbatim>\<open>pages\<close>, then its next
  sibling) whose suffix-stripped \<^verbatim>\<open>file\<close> is \<open>X\<close>.
\<close>

theorem find_name_preorder_first:
  assumes "\<forall>n\<in>set (toc_nodes t). strippable n"
  shows "((\<forall>n\<in>set (toc_nodes t). \<not> file_is X n) \<longrightarrow> find_name t X = Inr None) \<and>
         (\<forall>pre page post.
            toc_nodes t = pre @ page # post \<and> file_is X page \<and> (\<forall>n\<in>set pre. \<not> file_is X n)
            \<longrightarrow> find_name t X = Inr (Some page))"
proof -
  have eq: "find_name t X = scan X (toc_nodes t)"
    by (cases t) (simp_all add: find_pages_scan)
  have absent: "(\<forall>n\<in>set (toc_nodes t). \<not> file_is X n) \<longrightarrow> find_name t X = Inr None"
    using assms by (simp add: eq scan_no_match)
  have first: "\<forall>pre page post.
           toc_nodes t = pre @ page # post \<and> file_is X page \<and> (\<forall>n\<in>set pre. \<not> file_is X n)
           \<longrightarrow> find_name t X = Inr (Some page)"
  proof (intro allI impI, elim conjE)
    fix pre page post
    assume split: "toc_nodes t = pre @ page # post"
      and hit: "file_is X page" and miss: "\<forall>n\<in>set pre. \<not> file_is X n"
    from assms split have "\<forall>n\<in>set pre. strippable n" by simp
    then show "find_name t X = Inr (Some page)"
      using miss hit by (simp add: eq split scan_first_match)
  qed
  from absent first show ?thesis by blast
qed

text \<open>
  A tree in which \<^verbatim>\<open>a/ch2\<close> is the stripped \<^verbatim>\<open>file\<close> of a nested node and of a later
  top-level node: the nested one comes first in pre-order and is the one returned.
\<close>

definition example_toc :: toc where
  "example_toc =
     TocList
       [Node (Some ''intro.md'') None None False
          (Some [Node (Some ''a/ch1'') None None False None,
                 Node (Some ''a/ch2.ipynb'') None (Some ''Two'') False (Some [])]),
        Node (Some ''a/ch2'') None None True None]"

lemmas path_eval =
  no_suffix_def no_suffix_str_def name_stem_def cut_suffix_def parse_path_def parse_root_def with_suffix_empty_def path_name_def
  name_suffix_def path_str_def path_suffix_def path_parent_def path_child_def

lemma example_toc_nodes:
  "toc_nodes example_toc =
     [Node (Some ''intro.md'') None None False
        (Some [Node (Some ''a/ch1'') None None False None,
               Node (Some ''a/ch2.ipynb'') None (Some ''Two'') False (Some [])]),
      Node (Some ''a/ch1'') None None False None] @
     Node (Some ''a/ch2.ipynb'') None (Some ''Two'') False (Some []) #
     [Node (Some ''a/ch2'') None None True None]"
  by (simp add: example_toc_def get_pages_def)

theorem find_name_preorder_first_witness:
  "find_name example_toc ''a/ch2''
     = Inr (Some (Node (Some ''a/ch2.ipynb'') None (Some ''Two'') False (Some []))) \<and>
   find_name example_toc ''a/ch3'' = Inr None"
proof -
  have ok: "\<forall>n\<in>set (toc_nodes example_toc). strippable n"
    by (simp add: example_toc_nodes strippable_def path_eval)
  have hit: "file_is ''a/ch2'' (Node (Some ''a/ch2.ipynb'') None (Some ''Two'') False (Some []))"
    by (simp add: file_is_def path_eval)
  have miss: "\<forall>n\<in>set [Node (Some ''intro.md'') None None False
        (Some [Node (Some ''a/ch1'') None None False None,
               Node (Some ''a/ch2.ipynb'') None (Some ''Two'') False (Some [])]),
      Node (Some ''a/ch1'') None None False None]. \<not> file_is ''a/ch2'' n"
    by (simp add: file_is_def path_eval)
  have none: "\<forall>n\<in>set (toc_nodes example_toc). \<not> file_is ''a/ch3'' n"
    by (simp add: example_toc_nodes file_is_def path_eval)
  from find_name_preorder_first [OF ok, of "''a/ch2''"] example_toc_nodes hit miss
  have "find_name example_toc ''a/ch2''
     = Inr (Some (Node (Some ''a/ch2.ipynb'') None (Some ''Two'') False (Some [])))"
    by blast
  moreover from find_name_preorder_first [OF ok, of "''a/ch3''"] none
  have "find_name example_toc ''a/ch3'' = Inr None"
    by blast
  ultimately show ?thesis by simp
qed

section \<open>Injecting the navigation block into a page\<close>

text \<open>
  What the module reads and writes of the Sphinx application: the configuration values
  \<^verbatim>\<open>globaltoc_path\<close>, \<^verbatim>\<open>globaltoc\<close> and \<^verbatim>\<open>master_doc\<close>, and the environment's
  \<^verbatim>\<open>doc2path(docname, base=None)\<close>. A configuration value that is
  \<^verbatim>\<open>None\<close> or the empty string is falsy.
\<close>

record app =
  globaltoc_path :: "string option"
  globaltoc :: toc
  master_doc :: string
  doc2path :: "string \<Rightarrow> string"

definition truthy :: "string option \<Rightarrow> bool" where
  "truthy v = (case v of None \<Rightarrow> False | Some s \<Rightarrow> s \<noteq> [])"

text \<open>
  A notebook as \<^verbatim>\<open>nbformat\<close> reads it: the list \<^verbatim>\<open>cells\<close> and whatever else the document
  holds. \<^verbatim>\<open>nbformat\<close> itself is outside the repository: its reader, its writer and
  \<^verbatim>\<open>new_markdown_cell\<close> are parameters.
\<close>

record 'c notebook =
  cells :: "'c list"

record ('c, 'm) nbformat =
  reads :: "string \<Rightarrow> error + ('c, 'm) notebook_scheme"
  new_markdown_cell :: "string \<Rightarrow> 'c"
  writes :: "('c, 'm) notebook_scheme \<Rightarrow> error + string"

definition newline :: string where
  "newline = [CHR 0x0A]"

text \<open>
  The loop over the children: each \<^verbatim>\<open>(file, name)\<close> pair is replaced by its entry, the
  path made relative to the folder of the page's own \<^verbatim>\<open>file\<close>.
\<close>

definition section_entry :: "string \<Rightarrow> string option \<Rightarrow> string" where
  "section_entry path_sec nm =
     (if truthy nm then the nm @ '' <'' @ path_sec @ ''>'' else path_sec)"

fun rewrite_sections ::
  "string \<Rightarrow> string \<Rightarrow> (string option \<times> string option) list \<Rightarrow> error + string list" where
  "rewrite_sections cwd path_parent_folder [] = Inr []"
| "rewrite_sections cwd path_parent_folder ((path_sec, nm) # rest) =
     (case relpath cwd path_sec path_parent_folder of
        Inl e \<Rightarrow> Inl e
      | Inr rel \<Rightarrow>
          (case rewrite_sections cwd path_parent_folder rest of
             Inl e \<Rightarrow> Inl e
           | Inr entries \<Rightarrow> Inr (section_entry rel nm # entries)))"

text \<open>The directive after \<^verbatim>\<open>dedent\<close> and \<^verbatim>\<open>format\<close>.\<close>

definition toctree_text :: "string \<Rightarrow> string \<Rightarrow> string" where
  "toctree_text options sections =
     newline @ ''```{toctree}'' @ newline @ '':hidden:'' @ newline @ '':titlesonly:'' @ newline
     @ options @ newline @ newline @ sections @ newline @ ''```'' @ newline"

definition not_found_message :: "string \<Rightarrow> string" where
  "not_found_message path =
     ''The following path in your table of contents couldn't be found:'' @ newline @ newline
     @ path @ ''.'' @ newline @ newline
     @ ''Double check your `_toc.yml` file to make sure the paths are correct.''"

text \<open>
  \<^verbatim>\<open>add_toctree(app, docname, source)\<close>. The result is the outcome of the call (an exception
  or a normal return) and the content of \<^verbatim>\<open>source[0]\<close> after it.
\<close>

definition add_toctree ::
  "('c, 'm) nbformat \<Rightarrow> string \<Rightarrow> app \<Rightarrow> string \<Rightarrow> string \<Rightarrow> (error + unit) \<times> string" where
  "add_toctree nbf cwd ap docname source =
     (if \<not> truthy (globaltoc_path ap) then (Inr (), source)
      else
        let path = doc2path ap docname in
        case no_suffix_str path of
          Inl e \<Rightarrow> (Inl e, source)
        | Inr stripped \<Rightarrow>
        (case find_name (globaltoc ap) stripped of
          Inl e \<Rightarrow> (Inl e, source)
        | Inr None \<Rightarrow> (Inl (FileNotFoundError (not_found_message path)), source)
        | Inr (Some page) \<Rightarrow>
            let sections = map (\<lambda>ii. (node_file ii, node_name ii)) (get_pages page) in
            if length sections = 0 then (Inr (), source)
            else
              (case node_file page of
                 None \<Rightarrow> (Inl KeyError, source)
               | Some page_file \<Rightarrow>
              (case rewrite_sections cwd (path_str (path_parent (parse_path page_file))) sections of
                 Inl e \<Rightarrow> (Inl e, source)
               | Inr entries \<Rightarrow>
                   let options = join newline
                         (map (\<lambda>ii. '':'' @ ii @ '':'') (if numbered page then [''numbered''] else []));
                       suff = path_suffix (parse_path path);
                       toctree = toctree_text options (join newline entries)
                   in if suff = ''.md'' then (Inr (), source @ toctree @ newline)
                      else if suff = ''.ipynb'' then
                        (case reads nbf source of
                           Inl e \<Rightarrow> (Inl e, source)
                         | Inr ntbk \<Rightarrow>
                             (case writes nbf (ntbk\<lparr>cells := cells ntbk @ [new_markdown_cell nbf toctree]\<rparr>) of
                                Inl e \<Rightarrow> (Inl e, source)
                              | Inr text \<Rightarrow> (Inr (), text)))
                      else (Inl (ValueError ''Only markdown and ipynb files are supported.''), source)))))"

subsection \<open>What the injection does\<close>

lemma startswith_append: "startswith (p @ b) p"
  by (induction p) auto

lemma str_contains_append: "str_contains (a @ p @ b) p"
proof (induction a)
  case Nil
  show ?case by (cases "p @ b") (use startswith_append [of p b] in auto)
next
  case (Cons x a)
  then show ?case by simp
qed

lemma find_name_scan: "find_name t X = scan X (toc_nodes t)"
  by (cases t) (simp_all add: find_pages_scan)

lemma scan_found: "scan X ns = Inr (Some page) \<Longrightarrow> file_is X page \<and> page \<in> set ns"
  by (induction ns) (auto simp: file_is_def split: sum.splits if_splits)

lemma find_name_found:
  "find_name t X = Inr (Some page) \<Longrightarrow> file_is X page \<and> page \<in> set (toc_nodes t)"
  by (simp add: find_name_scan scan_found)

lemma file_is_Some: "file_is X page \<Longrightarrow> \<exists>f. node_file page = Some f \<and> no_suffix_str f = Inr X"
  by (auto simp: file_is_def no_suffix_def split: option.splits sum.splits)

text \<open>A child whose \<^verbatim>\<open>file\<close> is a non-empty string.\<close>

definition has_file :: "node \<Rightarrow> bool" where
  "has_file child = (case node_file child of None \<Rightarrow> False | Some f \<Rightarrow> f \<noteq> [])"

lemma relpath_has_file:
  "has_file child \<Longrightarrow>
   relpath cwd (node_file child) start = Inr (relative cwd (the (node_file child)) start)"
  by (auto simp: has_file_def relpath_def split: option.splits)

lemma rewrite_sections_total:
  "\<forall>c\<in>set cs. has_file c \<Longrightarrow>
   rewrite_sections cwd start (map (\<lambda>ii. (node_file ii, node_name ii)) cs)
     = Inr (map (\<lambda>c. section_entry (relative cwd (the (node_file c)) start) (node_name c)) cs)"
  by (induction cs) (simp_all add: relpath_has_file)

subsection \<open>The string of a path determines the path\<close>

lemma split_on_nonempty: "split_on c s \<noteq> []"
  by (induction s) (auto split: list.splits)

lemma split_on_free: "x \<in> set (split_on c s) \<Longrightarrow> c \<notin> set x"
  by (induction s arbitrary: x) (auto split: list.splits if_splits)

lemma split_on_no_sep: "c \<notin> set q \<Longrightarrow> split_on c q = [q]"
  by (induction q) auto

lemma split_on_append_sep:
  "c \<notin> set q \<Longrightarrow> split_on c (q @ c # s) = q # split_on c s"
  by (induction q) (auto split: list.splits)

lemma split_on_join:
  "qs \<noteq> [] \<Longrightarrow> \<forall>q\<in>set qs. c \<notin> set q \<Longrightarrow> split_on c (join [c] qs) = qs"
proof (induction qs rule: induct_list012)
  case 1
  then show ?case by simp
next
  case (2 x)
  then show ?case by (simp add: split_on_no_sep)
next
  case (3 x y ys)
  then show ?case by (simp add: split_on_append_sep)
qed

definition comps_ok :: "string list \<Rightarrow> bool" where
  "comps_ok qs = (qs \<noteq> [] \<and> (\<forall>q\<in>set qs. q \<noteq> [] \<and> CHR ''/'' \<notin> set q))"

lemma root_cases: "parse_root s = [] \<or> parse_root s = ''/'' \<or> parse_root s = ''//''"
  by (simp add: parse_root_def)

lemma join_hd:
  assumes "comps_ok qs"
  shows "\<exists>x xs. join ''/'' qs = x # xs \<and> x \<noteq> CHR ''/''"
proof (cases qs)
  case Nil
  with assms show ?thesis by (simp add: comps_ok_def)
next
  case (Cons q qs')
  with assms obtain a as where "q = a # as" "a \<noteq> CHR ''/''"
    by (cases q) (auto simp: comps_ok_def)
  with Cons show ?thesis by (cases qs') auto
qed

lemma parse_root_str:
  assumes "r = [] \<or> r = ''/'' \<or> r = ''//''" "comps_ok qs"
  shows "parse_root (r @ join ''/'' qs) = r"
  using assms(1) join_hd [OF assms(2)] by (auto simp: parse_root_def)

lemma comps_of_str:
  assumes "r = [] \<or> r = ''/'' \<or> r = ''//''" "comps_ok qs"
  shows "filter (\<lambda>x. x \<noteq> []) (split_on CHR ''/'' (r @ join ''/'' qs)) = qs"
proof -
  have "split_on CHR ''/'' (join ''/'' qs) = qs"
    using assms(2) split_on_join [of qs "CHR ''/''"] by (simp add: comps_ok_def)
  moreover have "filter (\<lambda>x. x \<noteq> []) qs = qs"
    using assms(2) by (auto simp: comps_ok_def filter_id_conv)
  ultimately show ?thesis using assms(1) by auto
qed

lemma str_inj:
  assumes "r1 = [] \<or> r1 = ''/'' \<or> r1 = ''//''" "comps_ok qs1"
      "r2 = [] \<or> r2 = ''/'' \<or> r2 = ''//''" "comps_ok qs2"
      "r1 @ join ''/'' qs1 = r2 @ join ''/'' qs2"
  shows "r1 = r2 \<and> qs1 = qs2"
  using parse_root_str [OF assms(1,2)] parse_root_str [OF assms(3,4)]
    comps_of_str [OF assms(1,2)] comps_of_str [OF assms(3,4)] assms(5) by simp

lemma stem_nonempty: "nm \<noteq> [] \<Longrightarrow> name_stem nm \<noteq> []"
  by (auto simp: name_stem_def name_suffix_def split: option.splits)

lemma parse_parts_ok:
  "x \<in> set (parts (parse_path s)) \<Longrightarrow> x \<noteq> [] \<and> CHR ''/'' \<notin> set x"
  by (auto simp: parse_path_def dest: split_on_free)

lemma with_suffix_empty_Inr:
  "with_suffix_empty p = Inr q \<Longrightarrow>
     parts p \<noteq> [] \<and> root q = root p \<and> butlast (parts q) = butlast (parts p) \<and> parts q \<noteq> [] \<and>
     last (parts q) = name_stem (last (parts p)) \<and> last (parts p) \<noteq> []"
  by (auto simp: with_suffix_empty_def cut_suffix_def path_name_def split: if_splits)

lemma stripped_comps_ok:
  assumes "with_suffix_empty (parse_path s) = Inr q"
  shows "comps_ok (parts q)"
proof -
  note w = with_suffix_empty_Inr [OF assms]
  have "\<forall>x\<in>set (parts q). x \<noteq> [] \<and> CHR ''/'' \<notin> set x"
  proof
    fix x assume "x \<in> set (parts q)"
    moreover have "parts q \<noteq> []" using w by simp
    ultimately have "x \<in> set (butlast (parts q)) \<or> x = last (parts q)"
      by (cases "parts q" rule: rev_cases) auto
    then show "x \<noteq> [] \<and> CHR ''/'' \<notin> set x"
    proof
      assume "x \<in> set (butlast (parts q))"
      then have "x \<in> set (parts (parse_path s))" using w by (auto dest: in_set_butlastD)
      then show ?thesis by (rule parse_parts_ok)
    next
      assume x: "x = last (parts q)"
      have l: "last (parts (parse_path s)) \<in> set (parts (parse_path s))" using w by simp
      from parse_parts_ok [OF l] have "CHR ''/'' \<notin> set (last (parts (parse_path s)))" by simp
      then have "CHR ''/'' \<notin> set x" unfolding x using w by (auto simp: name_stem_def dest: in_set_takeD)
      moreover have "x \<noteq> []" unfolding x using w stem_nonempty by simp
      ultimately show ?thesis by simp
    qed
  qed
  with w show ?thesis by (simp add: comps_ok_def)
qed

lemma same_stripped_same_parent:
  assumes "no_suffix_str a = Inr X" "no_suffix_str b = Inr X"
  shows "path_parent (parse_path a) = path_parent (parse_path b)"
proof -
  from assms obtain qa qb where
    qa: "with_suffix_empty (parse_path a) = Inr qa" "path_str qa = X" and
    qb: "with_suffix_empty (parse_path b) = Inr qb" "path_str qb = X"
    by (auto simp: no_suffix_str_def split: sum.splits)
  note wa = with_suffix_empty_Inr [OF qa(1)] and wb = with_suffix_empty_Inr [OF qb(1)]
  have ra: "root qa = [] \<or> root qa = ''/'' \<or> root qa = ''//''"
    using wa root_cases [of a] by (simp add: parse_path_def)
  have rb: "root qb = [] \<or> root qb = ''/'' \<or> root qb = ''//''"
    using wb root_cases [of b] by (simp add: parse_path_def)
  have "root qa @ join ''/'' (parts qa) = root qb @ join ''/'' (parts qb)"
    using qa(2) qb(2) wa wb by (simp add: path_str_def)
  from str_inj [OF ra stripped_comps_ok [OF qa(1)] rb stripped_comps_ok [OF qb(1)] this]
  have "root qa = root qb" "parts qa = parts qb" by simp_all
  then have "root (parse_path a) = root (parse_path b)"
    "butlast (parts (parse_path a)) = butlast (parts (parse_path b))"
    using wa wb by simp_all
  then show ?thesis using wa wb by (simp add: path_parent_def)
qed


subsection \<open>A concrete build\<close>

text \<open>
  The example tree as the configured table of contents, documents named without their
  suffix, and a toy notebook format: a notebook is the list of its cells, each a string.
\<close>

definition example_nbf :: "(string, unit) nbformat" where
  "example_nbf =
     \<lparr>reads = (\<lambda>s. if s = [] then Inl NotebookError else Inr \<lparr>cells = [s]\<rparr>),
      new_markdown_cell = (\<lambda>s. ''md:'' @ s),
      writes = (\<lambda>nb. Inr (concat (cells nb)))\<rparr>"

definition example_app :: "string \<Rightarrow> app" where
  "example_app suffix =
     \<lparr>globaltoc_path = Some ''_toc.yml'', globaltoc = example_toc, master_doc = ''index'',
      doc2path = (\<lambda>d. d @ suffix)\<rparr>"

definition intro_page :: node where
  "intro_page =
     Node (Some ''intro.md'') None None False
       (Some [Node (Some ''a/ch1'') None None False None,
              Node (Some ''a/ch2.ipynb'') None (Some ''Two'') False (Some [])])"

lemma example_find_intro: "find_name example_toc ''intro'' = Inr (Some intro_page)"
  by (simp add: example_toc_def intro_page_def path_eval)

lemma example_find_ch1:
  "find_name example_toc ''a/ch1'' = Inr (Some (Node (Some ''a/ch1'') None None False None))"
  by (simp add: example_toc_def get_pages_def path_eval)

lemma example_find_nothere: "find_name example_toc ''nothere'' = Inr None"
  by (simp add: example_toc_def get_pages_def path_eval)

lemma intro_page_children:
  "get_pages intro_page \<noteq> []" "\<forall>c\<in>set (get_pages intro_page). has_file c"
  by (simp_all add: intro_page_def get_pages_def has_file_def)

lemma example_app_simps:
  "truthy (globaltoc_path (example_app sfx))"
  "globaltoc (example_app sfx) = example_toc"
  "doc2path (example_app sfx) d = d @ sfx"
  by (simp_all add: example_app_def truthy_def)

lemmas relpath_eval =
  relative_def rel_list_def abs_list_def abspath_def normpath_def os_join_def parse_root_def


text \<open>
  C6. With a configured table of contents (\<^verbatim>\<open>globaltoc_path\<close> set): when the lookup of the
  document returns \<^verbatim>\<open>None\<close>, \<^verbatim>\<open>add_toctree\<close> raises \<^verbatim>\<open>FileNotFoundError\<close> with a message that
  contains the document's path, and the source buffer is what it was; when the node
  found has no children, the call returns normally and the source buffer is what it
  was.
\<close>

theorem add_toctree_missing_or_childless:
  assumes "truthy (globaltoc_path ap)"
    and "no_suffix_str (doc2path ap docname) = Inr X"
  shows "(find_name (globaltoc ap) X = Inr None \<longrightarrow>
            add_toctree nbf cwd ap docname source
              = (Inl (FileNotFoundError (not_found_message (doc2path ap docname))), source)
            \<and> str_contains (not_found_message (doc2path ap docname)) (doc2path ap docname)) \<and>
         (\<forall>page. find_name (globaltoc ap) X = Inr (Some page) \<and> get_pages page = [] \<longrightarrow>
            add_toctree nbf cwd ap docname source = (Inr (), source))"
proof (intro conjI impI allI)
  assume "find_name (globaltoc ap) X = Inr None"
  with assms show
    "add_toctree nbf cwd ap docname source
       = (Inl (FileNotFoundError (not_found_message (doc2path ap docname))), source)"
    by (simp add: add_toctree_def)
next
  show "str_contains (not_found_message (doc2path ap docname)) (doc2path ap docname)"
    unfolding not_found_message_def
    using str_contains_append
      [of "''The following path in your table of contents couldn't be found:'' @ newline @ newline"
          "doc2path ap docname"]
    by simp
next
  fix page
  assume "find_name (globaltoc ap) X = Inr (Some page) \<and> get_pages page = []"
  with assms show "add_toctree nbf cwd ap docname source = (Inr (), source)"
    by (simp add: add_toctree_def)
qed

theorem add_toctree_missing_or_childless_witness:
  "add_toctree example_nbf ''/w'' (example_app ''.md'') ''nothere'' ''text''
     = (Inl (FileNotFoundError (not_found_message ''nothere.md'')), ''text'') \<and>
   str_contains (not_found_message ''nothere.md'') ''nothere.md'' \<and>
   add_toctree example_nbf ''/w'' (example_app ''.md'') ''a/ch1'' ''text'' = (Inr (), ''text'')"
proof -
  have cfg: "truthy (globaltoc_path (example_app ''.md''))"
    by (rule example_app_simps)
  have s1: "no_suffix_str (doc2path (example_app ''.md'') ''nothere'') = Inr ''nothere''"
    by (simp add: example_app_simps path_eval)
  have s2: "no_suffix_str (doc2path (example_app ''.md'') ''a/ch1'') = Inr ''a/ch1''"
    by (simp add: example_app_simps path_eval)
  from add_toctree_missing_or_childless [OF cfg s1, of example_nbf "''/w''" "''text''"]
  have "add_toctree example_nbf ''/w'' (example_app ''.md'') ''nothere'' ''text''
     = (Inl (FileNotFoundError (not_found_message ''nothere.md'')), ''text'') \<and>
   str_contains (not_found_message ''nothere.md'') ''nothere.md''"
    by (simp add: example_app_simps example_find_nothere)
  moreover
  from add_toctree_missing_or_childless [OF cfg s2, of example_nbf "''/w''" "''text''"]
  have "add_toctree example_nbf ''/w'' (example_app ''.md'') ''a/ch1'' ''text'' = (Inr (), ''text'')"
    by (simp add: example_app_simps example_find_ch1 get_pages_def)
  ultimately show ?thesis by simp
qed

text \<open>
  The block \<^verbatim>\<open>add_toctree\<close> builds for a page: the option line, then one entry per child
  in the order of \<^verbatim>\<open>pages\<close>.
\<close>

definition page_directive :: "string \<Rightarrow> node \<Rightarrow> string" where
  "page_directive cwd page =
     toctree_text (if numbered page then '':numbered:'' else [])
       (join newline
          (map (\<lambda>c. section_entry
                      (relative cwd (the (node_file c))
                         (path_str (path_parent (parse_path (the (node_file page))))))
                      (node_name c))
               (get_pages page)))"

lemma add_toctree_with_children:
  assumes "truthy (globaltoc_path ap)"
    and "no_suffix_str (doc2path ap docname) = Inr X"
    and "find_name (globaltoc ap) X = Inr (Some page)"
    and "get_pages page \<noteq> []"
    and "\<forall>c\<in>set (get_pages page). has_file c"
  shows "add_toctree nbf cwd ap docname source =
     (if path_suffix (parse_path (doc2path ap docname)) = ''.md''
        then (Inr (), source @ page_directive cwd page @ newline)
      else if path_suffix (parse_path (doc2path ap docname)) = ''.ipynb'' then
        (case reads nbf source of
           Inl e \<Rightarrow> (Inl e, source)
         | Inr ntbk \<Rightarrow>
             (case writes nbf (ntbk\<lparr>cells := cells ntbk @ [new_markdown_cell nbf (page_directive cwd page)]\<rparr>) of
                Inl e \<Rightarrow> (Inl e, source)
              | Inr text \<Rightarrow> (Inr (), text)))
      else (Inl (ValueError ''Only markdown and ipynb files are supported.''), source))"
proof -
  from find_name_found [OF assms(3)] file_is_Some obtain f where f: "node_file page = Some f"
    by blast
  have options: "join newline (map (\<lambda>ii. '':'' @ ii @ '':'') (if numbered page then [''numbered''] else []))
      = (if numbered page then '':numbered:'' else [])"
    by simp
  show ?thesis
    unfolding add_toctree_def page_directive_def Let_def options
    using assms f
    by (simp add: rewrite_sections_total split: sum.split)
qed

text \<open>
  C7. For a document whose node has a non-empty list of children (each with a \<^verbatim>\<open>file\<close>):
  when the document's suffix is \<^verbatim>\<open>.md\<close>, the source buffer becomes the old source followed
  by the directive and one more newline; when it is \<^verbatim>\<open>.ipynb\<close>, the source is read as a
  notebook, a markdown cell holding the directive is appended to its cells and the
  notebook is written back to the buffer; for any other suffix the call raises
  \<^verbatim>\<open>ValueError\<close> and the buffer is what it was.
\<close>

theorem add_toctree_by_suffix:
  assumes "truthy (globaltoc_path ap)"
    and "no_suffix_str (doc2path ap docname) = Inr X"
    and "find_name (globaltoc ap) X = Inr (Some page)"
    and "get_pages page \<noteq> []"
    and "\<forall>c\<in>set (get_pages page). has_file c"
  shows "(path_suffix (parse_path (doc2path ap docname)) = ''.md'' \<longrightarrow>
            add_toctree nbf cwd ap docname source
              = (Inr (), source @ page_directive cwd page @ newline)) \<and>
         (path_suffix (parse_path (doc2path ap docname)) = ''.ipynb'' \<longrightarrow>
            (\<forall>ntbk text.
               reads nbf source = Inr ntbk \<and>
               writes nbf (ntbk\<lparr>cells := cells ntbk @ [new_markdown_cell nbf (page_directive cwd page)]\<rparr>)
                 = Inr text
               \<longrightarrow> add_toctree nbf cwd ap docname source = (Inr (), text))) \<and>
         (path_suffix (parse_path (doc2path ap docname)) \<noteq> ''.md'' \<and>
          path_suffix (parse_path (doc2path ap docname)) \<noteq> ''.ipynb'' \<longrightarrow>
            add_toctree nbf cwd ap docname source
              = (Inl (ValueError ''Only markdown and ipynb files are supported.''), source))"
  by (simp add: add_toctree_with_children [OF assms])

theorem add_toctree_by_suffix_witness:
  "add_toctree example_nbf ''/w'' (example_app ''.md'') ''intro'' ''text''
     = (Inr (), ''text'' @ page_directive ''/w'' intro_page @ newline) \<and>
   add_toctree example_nbf ''/w'' (example_app ''.ipynb'') ''intro'' ''text''
     = (Inr (), ''text'' @ ''md:'' @ page_directive ''/w'' intro_page) \<and>
   add_toctree example_nbf ''/w'' (example_app ''.rst'') ''intro'' ''text''
     = (Inl (ValueError ''Only markdown and ipynb files are supported.''), ''text'')"
proof -
  have s: "no_suffix_str (doc2path (example_app ''.md'') ''intro'') = Inr ''intro''"
    "no_suffix_str (doc2path (example_app ''.ipynb'') ''intro'') = Inr ''intro''"
    "no_suffix_str (doc2path (example_app ''.rst'') ''intro'') = Inr ''intro''"
    by (simp_all add: example_app_simps path_eval)
  have f: "find_name (globaltoc (example_app sfx)) ''intro'' = Inr (Some intro_page)" for sfx
    by (simp add: example_app_simps example_find_intro)
  have sfx: "path_suffix (parse_path (doc2path (example_app ''.md'') ''intro'')) = ''.md''"
    "path_suffix (parse_path (doc2path (example_app ''.ipynb'') ''intro'')) = ''.ipynb''"
    "path_suffix (parse_path (doc2path (example_app ''.rst'') ''intro'')) = ''.rst''"
    by (simp_all add: example_app_simps path_eval)
  from add_toctree_by_suffix [OF example_app_simps(1) s(1) f intro_page_children,
      of example_nbf "''/w''" "''text''"] sfx(1)
  have "add_toctree example_nbf ''/w'' (example_app ''.md'') ''intro'' ''text''
     = (Inr (), ''text'' @ page_directive ''/w'' intro_page @ newline)"
    by simp
  moreover
  from add_toctree_by_suffix [OF example_app_simps(1) s(2) f intro_page_children,
      of example_nbf "''/w''" "''text''"] sfx(2)
  have "add_toctree example_nbf ''/w'' (example_app ''.ipynb'') ''intro'' ''text''
     = (Inr (), ''text'' @ ''md:'' @ page_directive ''/w'' intro_page)"
    by (simp add: example_nbf_def)
  moreover
  from add_toctree_by_suffix [OF example_app_simps(1) s(3) f intro_page_children,
      of example_nbf "''/w''" "''text''"] sfx(3)
  have "add_toctree example_nbf ''/w'' (example_app ''.rst'') ''intro'' ''text''
     = (Inl (ValueError ''Only markdown and ipynb files are supported.''), ''text'')"
    by simp
  ultimately show ?thesis by simp
qed

subsection \<open>What the relative path means\<close>

text \<open>
  The components of a path string, and lists of components that \<^verbatim>\<open>normpath\<close> leaves as they
  are. With an absolute working directory, \<^verbatim>\<open>abspath\<close> is the walk of \<^verbatim>\<open>normpath\<close>'s loop over
  the components, started from the working directory for a relative path.
\<close>

definition comps :: "string \<Rightarrow> string list" where
  "comps s = filter (\<lambda>x. x \<noteq> []) (split_on CHR ''/'' s)"

definition clean :: "string list \<Rightarrow> bool" where
  "clean xs = (\<forall>x\<in>set xs. x \<noteq> [] \<and> x \<noteq> ''.'' \<and> x \<noteq> ''..'' \<and> CHR ''/'' \<notin> set x)"

lemma norm_comps_nonempty:
  "norm_comps i acc xs = norm_comps i acc (filter (\<lambda>x. x \<noteq> []) xs)"
  by (cases i; induction xs arbitrary: acc) simp_all

lemma norm_comps_append:
  "norm_comps i acc (xs @ ys) = norm_comps i (norm_comps i acc xs) ys"
  by (cases i; induction xs arbitrary: acc) simp_all

lemma clean_butlast: "clean xs \<Longrightarrow> clean (butlast xs)"
  by (auto simp: clean_def dest: in_set_butlastD)

lemma norm_comps_clean:
  "clean acc \<Longrightarrow> \<forall>x\<in>set xs. CHR ''/'' \<notin> set x \<Longrightarrow> clean (norm_comps True acc xs)"
proof (induction xs arbitrary: acc)
  case Nil
  then show ?case by simp
next
  case (Cons x xs)
  have last: "acc \<noteq> [] \<Longrightarrow> last acc \<noteq> ''..''"
    using Cons.prems(1) by (auto simp: clean_def dest: last_in_set)
  have a: "clean (acc @ [x])" if "x \<noteq> []" "x \<noteq> ''.''" "x \<noteq> ''..''"
    using that Cons.prems by (auto simp: clean_def)
  show ?case
    using Cons.IH [of acc] Cons.IH [of "acc @ [x]"] Cons.IH [of "butlast acc"] Cons.prems a last
      clean_butlast [of acc]
    by auto
qed

lemma norm_comps_up:
  "clean acc \<Longrightarrow> norm_comps True acc (replicate k ''..'') = take (length acc - k) acc"
proof (induction k arbitrary: acc)
  case 0
  show ?case by simp
next
  case (Suc k)
  have last: "acc \<noteq> [] \<Longrightarrow> last acc \<noteq> ''..''"
    using Suc.prems by (auto simp: clean_def dest: last_in_set)
  show ?case
  proof (cases "acc = []")
    case True
    with Suc show ?thesis by simp
  next
    case False
    with Suc.IH [OF clean_butlast [OF Suc.prems]] last show ?thesis
      by (simp add: butlast_conv_take)
  qed
qed

lemma norm_comps_down: "clean ys \<Longrightarrow> norm_comps True acc ys = acc @ ys"
  by (induction ys arbitrary: acc) (auto simp: clean_def)

lemma split_on_append_sep_general:
  "split_on c (a @ c # b) = split_on c a @ split_on c b"
  by (induction a) (auto split: list.splits simp: split_on_nonempty)

lemma comps_append_sep: "comps (a @ CHR ''/'' # b) = comps a @ comps b"
  by (simp add: comps_def split_on_append_sep_general)

lemma comps_Nil [simp]: "comps [] = []"
  by (simp add: comps_def)

lemma comps_os_join:
  "\<not> startswith b ''/'' \<Longrightarrow> comps (os_join a b) = comps a @ comps b"
proof (cases "a = []")
  case True
  assume "\<not> startswith b ''/''"
  with True show ?thesis by (simp add: os_join_def)
next
  case False
  assume nb: "\<not> startswith b ''/''"
  show ?thesis
  proof (cases "last a = CHR ''/''")
    case True
    with False obtain a' where a: "a = a' @ ''/''"
      by (metis append_butlast_last_id)
    have "comps a = comps a'" unfolding a using comps_append_sep [of a' "[]"] by simp
    moreover have "comps (a @ b) = comps a' @ comps b"
      unfolding a using comps_append_sep [of a' b] by simp
    ultimately show ?thesis using nb False True by (simp add: os_join_def)
  next
    case l: False
    with nb False show ?thesis
      using comps_append_sep [of a b] by (simp add: os_join_def)
  qed
qed

lemma clean_Nil [simp]: "clean []"
  by (simp add: clean_def)

lemma clean_comps_ok: "clean xs \<Longrightarrow> xs \<noteq> [] \<Longrightarrow> comps_ok xs"
  by (simp add: clean_def comps_ok_def)

lemma comps_free: "\<forall>x\<in>set (comps s). CHR ''/'' \<notin> set x"
  by (auto simp: comps_def dest: split_on_free)

lemma startswith_slash: "startswith q ''/'' \<longleftrightarrow> (\<exists>t. q = CHR ''/'' # t)"
  by (cases q) auto

lemma normpath_abs:
  assumes "startswith q ''/''"
  shows "comps (normpath q) = norm_comps True [] (comps q)"
proof -
  let ?N = "norm_comps True [] (comps q)"
  have N: "norm_comps True [] (split_on CHR ''/'' q) = ?N"
    unfolding comps_def by (rule norm_comps_nonempty)
  have cl: "clean ?N" using norm_comps_clean [OF clean_Nil comps_free] .
  from assms obtain t where q: "q = CHR ''/'' # t" by (auto simp: startswith_slash)
  have r: "parse_root q = ''/'' \<or> parse_root q = ''//''"
    unfolding q by (simp add: parse_root_def)
  then have r3: "parse_root q = [] \<or> parse_root q = ''/'' \<or> parse_root q = ''//''" by blast
  have ne: "q \<noteq> []" unfolding q by simp
  have np: "normpath q = parse_root q @ join ''/'' ?N"
    using assms r ne by (auto simp: normpath_def N Let_def)
  show ?thesis
  proof (cases "?N = []")
    case True
    with r show ?thesis unfolding np by (auto simp: comps_def)
  next
    case False
    from comps_of_str [OF r3 clean_comps_ok [OF cl False]] show ?thesis
      unfolding np comps_def .
  qed
qed

lemma os_join_abs:
  "startswith cwd ''/'' \<Longrightarrow> \<not> startswith s ''/'' \<Longrightarrow> startswith (os_join cwd s) ''/''"
  by (auto simp: os_join_def startswith_slash)

lemma abs_list_eq:
  assumes "startswith cwd ''/''"
  shows "abs_list cwd s
           = norm_comps True (if startswith s ''/'' then [] else norm_comps True [] (comps cwd))
               (comps s)"
proof (cases "startswith s ''/''")
  case True
  then show ?thesis
    using normpath_abs [OF True] by (simp add: abs_list_def abspath_def comps_def)
next
  case False
  from normpath_abs [OF os_join_abs [OF assms False]] False show ?thesis
    by (simp add: abs_list_def abspath_def comps_def [symmetric] comps_os_join norm_comps_append)
qed

lemma abs_list_clean:
  assumes "startswith cwd ''/''"
  shows "clean (abs_list cwd s)"
  unfolding abs_list_eq [OF assms]
  using norm_comps_clean [OF clean_Nil comps_free, of cwd] comps_free [of s]
  by (auto intro: norm_comps_clean)

lemma common_len_take: "take (common_len xs ys) xs = take (common_len xs ys) ys"
  by (induction xs ys rule: common_len.induct) auto

lemma common_len_le: "common_len xs ys \<le> length xs" "common_len xs ys \<le> length ys"
  by (induction xs ys rule: common_len.induct) auto

lemma clean_drop: "clean xs \<Longrightarrow> clean (drop i xs)"
  by (auto simp: clean_def dest: in_set_dropD)

lemma clean_take: "clean xs \<Longrightarrow> clean (take i xs)"
  by (auto simp: clean_def dest: in_set_takeD)

lemma rel_list_resolves:
  assumes "startswith cwd ''/''"
  shows "norm_comps True (abs_list cwd start) (rel_list cwd f start) = abs_list cwd f"
proof -
  let ?L = "abs_list cwd start" and ?P = "abs_list cwd f"
  let ?i = "common_len ?L ?P"
  note L = abs_list_clean [OF assms, of start] and P = abs_list_clean [OF assms, of f]
  have "norm_comps True ?L (rel_list cwd f start)
          = norm_comps True (norm_comps True ?L (replicate (length ?L - ?i) ''..'')) (drop ?i ?P)"
    by (simp add: rel_list_def Let_def norm_comps_append)
  also have "\<dots> = norm_comps True (take ?i ?L) (drop ?i ?P)"
    using common_len_le(1) [of ?L ?P] by (simp add: norm_comps_up [OF L])
  also have "\<dots> = take ?i ?L @ drop ?i ?P"
    by (rule norm_comps_down [OF clean_drop [OF P]])
  also have "\<dots> = ?P"
    by (simp add: common_len_take)
  finally show ?thesis .
qed

lemma join_snoc: "xs \<noteq> [] \<Longrightarrow> join sep (xs @ [y]) = join sep xs @ sep @ y"
  by (induction xs rule: induct_list012) simp_all

lemma join_last:
  "comps_ok xs \<Longrightarrow> join ''/'' xs \<noteq> [] \<and> last (join ''/'' xs) \<noteq> CHR ''/''"
proof (induction xs rule: induct_list012)
  case 1
  then show ?case by (simp add: comps_ok_def)
next
  case (2 x)
  then show ?case by (auto simp: comps_ok_def dest: last_in_set)
next
  case (3 x y zs)
  then have "comps_ok (y # zs)" by (simp add: comps_ok_def)
  with 3 show ?case by simp
qed

lemma foldl_os_join:
  "comps_ok (a # bs) \<Longrightarrow> foldl os_join a bs = join ''/'' (a # bs)"
proof (induction bs rule: rev_induct)
  case Nil
  show ?case by simp
next
  case (snoc b bs)
  then have ok: "comps_ok (a # bs)" and b: "b \<noteq> []" "CHR ''/'' \<notin> set b"
    by (simp_all add: comps_ok_def)
  from b have nb: "\<not> startswith b ''/''" by (cases b) auto
  from join_last [OF ok] nb snoc.IH [OF ok] show ?case
    using join_snoc [of "a # bs" "''/''" b] by (simp add: os_join_def)
qed

lemma rel_list_ok:
  assumes "startswith cwd ''/''" "rel_list cwd f start \<noteq> []"
  shows "comps_ok (rel_list cwd f start)"
proof -
  let ?P = "abs_list cwd f" and ?L = "abs_list cwd start"
  have cl: "clean (drop (common_len ?L ?P) ?P)"
    by (rule clean_drop [OF abs_list_clean [OF assms(1)]])
  have "x \<noteq> [] \<and> CHR ''/'' \<notin> set x" if "x \<in> set (rel_list cwd f start)" for x
  proof -
    from that have "x = ''..'' \<or> x \<in> set (drop (common_len ?L ?P) ?P)"
      by (auto simp: rel_list_def Let_def)
    then show ?thesis
    proof
      assume "x = ''..''"
      then show ?thesis by simp
    next
      assume "x \<in> set (drop (common_len ?L ?P) ?P)"
      with cl show ?thesis by (simp add: clean_def)
    qed
  qed
  with assms(2) show ?thesis by (simp add: comps_ok_def)
qed

lemma relative_comps:
  assumes "startswith cwd ''/''"
  shows "\<not> startswith (relative cwd f start) ''/''"
    and "norm_comps True acc (comps (relative cwd f start)) = norm_comps True acc (rel_list cwd f start)"
proof -
  let ?rl = "rel_list cwd f start"
  have "\<not> startswith (relative cwd f start) ''/'' \<and>
        norm_comps True acc (comps (relative cwd f start)) = norm_comps True acc ?rl"
  proof (cases "?rl = []")
    case True
    then show ?thesis by (simp add: relative_def comps_def)
  next
    case False
    note ok = rel_list_ok [OF assms False]
    from False obtain a bs where rl: "?rl = a # bs" by (cases ?rl) auto
    have rel: "relative cwd f start = join ''/'' ?rl"
      using False ok foldl_os_join [of a bs] by (simp add: relative_def rl)
    have "comps (join ''/'' ?rl) = ?rl"
      using comps_of_str [of "[]", OF _ ok] by (simp add: comps_def)
    moreover from join_hd [OF ok] have "\<not> startswith (join ''/'' ?rl) ''/''" by auto
    ultimately show ?thesis by (simp add: rel)
  qed
  then show "\<not> startswith (relative cwd f start) ''/''"
    and "norm_comps True acc (comps (relative cwd f start)) = norm_comps True acc ?rl"
    by simp_all
qed

lemma os_join_startswith:
  "\<not> startswith b ''/'' \<Longrightarrow> startswith (os_join a b) ''/'' = startswith a ''/''"
  by (cases a) (auto simp: os_join_def)

text \<open>
  Going from the folder \<open>start\<close> along the path that \<^verbatim>\<open>relpath\<close> returns for \<open>f\<close> leads to
  \<open>f\<close>: both name the same absolute location.
\<close>

lemma relative_leads_to:
  assumes "startswith cwd ''/''"
  shows "abs_list cwd (os_join start (relative cwd f start)) = abs_list cwd f"
proof -
  let ?rel = "relative cwd f start"
  let ?base = "if startswith start ''/'' then [] else norm_comps True [] (comps cwd)"
  note rc = relative_comps [OF assms, where f = f and start = start]
  have "abs_list cwd (os_join start ?rel)
          = norm_comps True ?base (comps start @ comps ?rel)"
    by (simp add: abs_list_eq [OF assms] os_join_startswith [OF rc(1)] comps_os_join [OF rc(1)])
  also have "\<dots> = norm_comps True (abs_list cwd start) (rel_list cwd f start)"
    by (simp add: norm_comps_append rc(2) abs_list_eq [OF assms])
  also have "\<dots> = abs_list cwd f"
    by (rule rel_list_resolves [OF assms])
  finally show ?thesis .
qed

lemma section_entry_cases:
  "section_entry rel nm =
     (case nm of None \<Rightarrow> rel | Some label \<Rightarrow> if label = [] then rel else label @ '' <'' @ rel @ ''>'')"
  by (simp add: section_entry_def truthy_def split: option.split)

text \<open>
  C8. In the block injected into a \<^verbatim>\<open>.md\<close> document, the entries are those of the node's
  children in their declared order; each entry's path is \<^verbatim>\<open>os.path.relpath\<close> of the child's
  \<^verbatim>\<open>file\<close> from the folder that contains the document itself, and the entry is
  \<^verbatim>\<open>name <path>\<close> when the child has a non-empty \<^verbatim>\<open>name\<close> and the bare path otherwise. The
  path is relative to that folder: joined to the folder it names the same absolute
  location as the child's \<^verbatim>\<open>file\<close> (the working directory of the process being absolute).
\<close>

theorem injected_entries_relative_in_order:
  assumes "truthy (globaltoc_path ap)"
    and "no_suffix_str (doc2path ap docname) = Inr X"
    and "find_name (globaltoc ap) X = Inr (Some page)"
    and "get_pages page \<noteq> []"
    and "\<forall>c\<in>set (get_pages page). has_file c"
    and "path_suffix (parse_path (doc2path ap docname)) = ''.md''"
    and "startswith cwd ''/''"
  shows "add_toctree nbf cwd ap docname source =
     (Inr (),
      source @
      toctree_text (if numbered page then '':numbered:'' else [])
        (join newline
           (map (\<lambda>child.
                   let rel = relative cwd (the (node_file child))
                               (path_str (path_parent (parse_path (doc2path ap docname))))
                   in case node_name child of
                        None \<Rightarrow> rel
                      | Some label \<Rightarrow> if label = [] then rel else label @ '' <'' @ rel @ ''>'')
                (get_pages page)))
      @ newline) \<and>
     (\<forall>child\<in>set (get_pages page).
        abs_list cwd
          (os_join (path_str (path_parent (parse_path (doc2path ap docname))))
             (relative cwd (the (node_file child))
                (path_str (path_parent (parse_path (doc2path ap docname))))))
        = abs_list cwd (the (node_file child)))"
proof -
  from find_name_found [OF assms(3)] file_is_Some obtain f
    where f: "node_file page = Some f" "no_suffix_str f = Inr X"
    by blast
  have "path_parent (parse_path f) = path_parent (parse_path (doc2path ap docname))"
    using same_stripped_same_parent [OF f(2) assms(2)] .
  then have "add_toctree nbf cwd ap docname source =
     (Inr (),
      source @
      toctree_text (if numbered page then '':numbered:'' else [])
        (join newline
           (map (\<lambda>child.
                   let rel = relative cwd (the (node_file child))
                               (path_str (path_parent (parse_path (doc2path ap docname))))
                   in case node_name child of
                        None \<Rightarrow> rel
                      | Some label \<Rightarrow> if label = [] then rel else label @ '' <'' @ rel @ ''>'')
                (get_pages page)))
      @ newline)"
    using f(1) assms(6)
    by (simp add: add_toctree_with_children [OF assms(1-5)] page_directive_def
        section_entry_cases Let_def)
  then show ?thesis
    using relative_leads_to [OF assms(7)] by blast
qed

theorem injected_entries_relative_in_order_witness:
  "add_toctree example_nbf ''/w'' (example_app ''.md'') ''intro'' ''text''
     = (Inr (),
        ''text'' @ toctree_text [] (''a/ch1'' @ newline @ ''Two <a/ch2.ipynb>'') @ newline)"
proof -
  have s: "no_suffix_str (doc2path (example_app ''.md'') ''intro'') = Inr ''intro''"
    by (simp add: example_app_simps path_eval)
  have f: "find_name (globaltoc (example_app ''.md'')) ''intro'' = Inr (Some intro_page)"
    by (simp add: example_app_simps example_find_intro)
  have sfx: "path_suffix (parse_path (doc2path (example_app ''.md'') ''intro'')) = ''.md''"
    by (simp add: example_app_simps path_eval)
  have cwd: "startswith ''/w'' ''/''"
    by simp
  have rel: "relative ''/w'' ''a/ch1'' ''.'' = ''a/ch1''"
    "relative ''/w'' ''a/ch2.ipynb'' ''.'' = ''a/ch2.ipynb''"
    by (simp_all add: relpath_eval)
  have parent: "path_str (path_parent (parse_path (doc2path (example_app ''.md'') ''intro''))) = ''.''"
    by (simp add: example_app_simps path_eval)
  from injected_entries_relative_in_order [OF example_app_simps(1) s f intro_page_children sfx cwd,
      of example_nbf "''text''", THEN conjunct1]
  show ?thesis
    unfolding parent
    by (simp add: intro_page_def get_pages_def rel)
qed

section \<open>Loading the table of contents\<close>

text \<open>
  \<^verbatim>\<open>update_indexname(app, config)\<close>. Reading and parsing the file is outside the module:
  \<open>safe_load\<close> gives the parsed content of the file at a path, one node or a list of
  nodes. The result is the outcome of the call and the application after it;
  \<^verbatim>\<open>globaltoc\<close> is assigned before \<^verbatim>\<open>master_doc\<close> is computed.
\<close>

definition update_indexname :: "(string \<Rightarrow> toc) \<Rightarrow> app \<Rightarrow> (error + unit) \<times> app" where
  "update_indexname safe_load ap =
     (case globaltoc_path ap of
        None \<Rightarrow> (Inr (), ap)
      | Some toc_path \<Rightarrow>
          if toc_path = [] then (Inr (), ap)
          else
            (case (case safe_load toc_path of
                     TocDict d \<Rightarrow> Inr d
                   | TocList [] \<Rightarrow> Inl IndexError
                   | TocList (toc_updated # subsections) \<Rightarrow>
                       Inr (if length (toc_updated # subsections) > 1
                              then with_pages toc_updated subsections
                            else toc_updated)) of
               Inl e \<Rightarrow> (Inl e, ap)
             | Inr toc \<Rightarrow>
                 (case node_file toc of
                    None \<Rightarrow> (Inl KeyError, ap\<lparr>globaltoc := TocDict toc\<rparr>)
                  | Some f \<Rightarrow>
                      (case no_suffix_str f of
                         Inl e \<Rightarrow> (Inl e, ap\<lparr>globaltoc := TocDict toc\<rparr>)
                       | Inr stripped \<Rightarrow>
                           (Inr (), ap\<lparr>globaltoc := TocDict toc, master_doc := stripped\<rparr>)))))"

section \<open>Building the tree from a directory\<close>

text \<open>
  A directory is the list of its entries in the order \<^verbatim>\<open>iterdir()\<close> yields them; an entry is
  a file or a directory with its own entries. There are no symbolic links, so the
  resolved name of a sub-directory is its entry name; the resolved name of the top
  directory is given with it.
\<close>

datatype entry = File string | Dir string "entry list"

fun entry_name :: "entry \<Rightarrow> string" where
  "entry_name (File n) = n"
| "entry_name (Dir n sub) = n"

text \<open>
  \<^verbatim>\<open>_content_path_to_yaml(path, split_char)\<close>. \<^verbatim>\<open>_filename_to_title\<close> lives in another module
  and is the parameter \<open>filename_to_title\<close>; \<open>dir_name\<close> is
  \<^verbatim>\<open>path.resolve().parent.name\<close>, the resolved name of the directory that holds the file.
  The suffix is cut twice: once for the title, once more for \<^verbatim>\<open>file\<close>.
\<close>

definition content_path_to_yaml ::
  "(string \<Rightarrow> char \<Rightarrow> string) \<Rightarrow> string \<Rightarrow> path \<Rightarrow> char \<Rightarrow> error + node" where
  "content_path_to_yaml filename_to_title dir_name p split_char =
     (case with_suffix_empty p of
        Inl e \<Rightarrow> Inl e
      | Inr p1 \<Rightarrow>
          let title = (if path_name p1 = ''index'' then filename_to_title dir_name split_char
                       else filename_to_title (path_name p1) split_char)
          in (case with_suffix_empty p1 of
                Inl e \<Rightarrow> Inl e
              | Inr p2 \<Rightarrow> Inr (Node (Some (path_str p2)) (Some title) None False None)))"

text \<open>
  The search for an \<^verbatim>\<open>index\<close> page: \<^verbatim>\<open>enumerate\<close> walks the list by position while
  \<^verbatim>\<open>pop(ii)\<close> shortens it, so the entry after a popped one is never looked at.
\<close>

function index_loop :: "nat \<Rightarrow> path list \<Rightarrow> path option \<Rightarrow> error + (path list \<times> path option)" where
  "index_loop ii content_files first_content =
     (if ii < length content_files then
        (case with_suffix_empty (content_files ! ii) of
           Inl e \<Rightarrow> Inl e
         | Inr stem \<Rightarrow>
             if path_name stem = ''index''
               then index_loop (Suc ii) (take ii content_files @ drop (Suc ii) content_files)
                      (Some (content_files ! ii))
             else index_loop (Suc ii) content_files first_content)
      else Inr (content_files, first_content))"
  by pat_completeness auto
termination
  by (relation "measure (\<lambda>(ii, content_files, first_content). length content_files - ii)") auto

declare index_loop.simps [simp del]

text \<open>\<^verbatim>\<open>any(iskip in str(p) for iskip in skip_text)\<close>.\<close>

definition skipped :: "string list \<Rightarrow> path \<Rightarrow> bool" where
  "skipped skip_text p = (\<exists>iskip\<in>set skip_text. str_contains (path_str p) iskip)"

text \<open>The loop that turns the remaining content files into pages, with the default split character.\<close>

fun children_loop ::
  "(string \<Rightarrow> char \<Rightarrow> string) \<Rightarrow> string \<Rightarrow> string list \<Rightarrow> path list \<Rightarrow> error + node list" where
  "children_loop filename_to_title dir_name skip_text [] = Inr []"
| "children_loop filename_to_title dir_name skip_text (content_file # rest) =
     (if skipped skip_text content_file
        then children_loop filename_to_title dir_name skip_text rest
      else (case content_path_to_yaml filename_to_title dir_name content_file CHR ''_'' of
              Inl e \<Rightarrow> Inl e
            | Inr page \<Rightarrow>
                (case children_loop filename_to_title dir_name skip_text rest of
                   Inl e \<Rightarrow> Inl e
                 | Inr later \<Rightarrow> Inr (page # later))))"

definition content_files_of :: "string list \<Rightarrow> path \<Rightarrow> entry list \<Rightarrow> path list" where
  "content_files_of supported p listing =
     filter (\<lambda>ii. path_suffix ii \<in> set supported) (map (\<lambda>e. path_child p (entry_name e)) listing)"

definition checkpoints :: string where
  "checkpoints = ''.ipynb_checkpoints''"

text \<open>
  \<^verbatim>\<open>_find_content_structure(path, split_char, skip_text)\<close> on the directory \<open>path\<close> with the
  entries \<open>listing\<close>. \<open>supported\<close> is \<^verbatim>\<open>SUPPORTED_FILE_SUFFIXES\<close>. The result is the outcome
  (an exception, \<^verbatim>\<open>None\<close> or the parent node) and the content of the \<^verbatim>\<open>skip_text\<close> list
  after the call: the caller's list when one was passed, a fresh one otherwise.
  \<open>folders_loop\<close> is the loop over the sub-folders; it walks all entries and passes over
  those that are not directories.
\<close>

fun find_content_structure ::
  "string list \<Rightarrow> (string \<Rightarrow> char \<Rightarrow> string) \<Rightarrow> path \<Rightarrow> string \<Rightarrow> entry list \<Rightarrow> char
     \<Rightarrow> string list option \<Rightarrow> (error + node option) \<times> string list"
and folders_loop ::
  "string list \<Rightarrow> (string \<Rightarrow> char \<Rightarrow> string) \<Rightarrow> path \<Rightarrow> entry list \<Rightarrow> char
     \<Rightarrow> node list \<Rightarrow> string list \<Rightarrow> (error + node list) \<times> string list"
where
  "find_content_structure supported filename_to_title p dir_name listing split_char skip_text =
     (let skip1 = (case skip_text of None \<Rightarrow> [] | Some given \<Rightarrow> given) @ [checkpoints];
          content_files = content_files_of supported p listing
      in if length content_files = 0 then (Inr None, skip1)
         else
           (case index_loop 0 content_files None of
              Inl e \<Rightarrow> (Inl e, skip1)
            | Inr (content_files1, found) \<Rightarrow>
           (case (case found of
                    Some f \<Rightarrow> Inr (f, content_files1)
                  | None \<Rightarrow> (case content_files1 of
                               [] \<Rightarrow> Inl IndexError
                             | f # others \<Rightarrow> Inr (f, others))) of
              Inl e \<Rightarrow> (Inl e, skip1)
            | Inr (first_content, content_files2) \<Rightarrow>
           (case content_path_to_yaml filename_to_title dir_name first_content split_char of
              Inl e \<Rightarrow> (Inl e, skip1)
            | Inr parent \<Rightarrow>
           (case children_loop filename_to_title dir_name skip1 content_files2 of
              Inl e \<Rightarrow> (Inl e, skip1)
            | Inr pages1 \<Rightarrow>
           (case folders_loop supported filename_to_title p listing split_char pages1 skip1 of
              (Inl e, skip2) \<Rightarrow> (Inl e, skip2)
            | (Inr pages2, skip2) \<Rightarrow>
                (Inr (Some (if length pages2 = 0 then parent else with_pages parent pages2)),
                 skip2)))))))"
| "folders_loop supported filename_to_title p [] split_char pages_so_far skip_text =
     (Inr pages_so_far, skip_text)"
| "folders_loop supported filename_to_title p (File n # rest) split_char pages_so_far skip_text =
     folders_loop supported filename_to_title p rest split_char pages_so_far skip_text"
| "folders_loop supported filename_to_title p (Dir n sub # rest) split_char pages_so_far skip_text =
     (let folder = path_child p n in
      if skipped skip_text folder
        then folders_loop supported filename_to_title p rest split_char pages_so_far skip_text
      else
        (case find_content_structure supported filename_to_title folder n sub split_char
                (Some skip_text) of
           (Inl e, skip2) \<Rightarrow> (Inl e, skip2)
         | (Inr None, skip2) \<Rightarrow>
             folders_loop supported filename_to_title p rest split_char pages_so_far skip2
         | (Inr (Some folder_out), skip2) \<Rightarrow>
             folders_loop supported filename_to_title p rest split_char
               (pages_so_far @ [folder_out]) skip2))"

text \<open>
  \<^verbatim>\<open>build_toc(path, filename_split_char, skip_text)\<close>; \<^verbatim>\<open>yaml.safe_dump\<close> is the parameter
  \<open>safe_dump\<close>.
\<close>

definition build_toc ::
  "string list \<Rightarrow> (string \<Rightarrow> char \<Rightarrow> string) \<Rightarrow> (node \<Rightarrow> string) \<Rightarrow> string \<Rightarrow> string
     \<Rightarrow> entry list \<Rightarrow> char \<Rightarrow> string list option \<Rightarrow> (error + string) \<times> string list" where
  "build_toc supported filename_to_title safe_dump path_arg dir_name listing
       filename_split_char skip_text =
     (case find_content_structure supported filename_to_title (parse_path path_arg) dir_name
             listing filename_split_char skip_text of
        (Inl e, skip2) \<Rightarrow> (Inl e, skip2)
      | (Inr None, skip2) \<Rightarrow>
          (Inl (ValueError (''No content files were found in '' @ path_arg @ ''.'')), skip2)
      | (Inr (Some structure), skip2) \<Rightarrow> (Inr (safe_dump structure), skip2))"

subsection \<open>Titles\<close>

text \<open>Upper and lower case of the ASCII letters; other characters stay as they are.\<close>

definition upper_char :: "char \<Rightarrow> char" where
  "upper_char c =
     (case map_of (zip ''abcdefghijklmnopqrstuvwxyz'' ''ABCDEFGHIJKLMNOPQRSTUVWXYZ'') c of
        None \<Rightarrow> c | Some u \<Rightarrow> u)"

definition lower_char :: "char \<Rightarrow> char" where
  "lower_char c =
     (case map_of (zip ''ABCDEFGHIJKLMNOPQRSTUVWXYZ'' ''abcdefghijklmnopqrstuvwxyz'') c of
        None \<Rightarrow> c | Some l \<Rightarrow> l)"

fun title_case :: "string \<Rightarrow> string" where
  "title_case [] = []"
| "title_case (c # cs) = upper_char c # map lower_char cs"

text \<open>
  Modelled from the spec: \<^verbatim>\<open>_filename_to_title\<close> is defined in \<^verbatim>\<open>jupyter_book/utils.py\<close>, which
  is not among the sources. The spec says that title derivation splits the name on the
  split character and title-cases each resulting word; the words are put together with
  single spaces. The builder itself takes the function as a parameter; this definition
  only serves to run it on examples.
\<close>

definition spec_filename_to_title :: "string \<Rightarrow> char \<Rightarrow> string" where
  "spec_filename_to_title nm split_char = join '' '' (map title_case (split_on split_char nm))"

subsection \<open>What the builder does with the split character and with the listing order\<close>

lemmas build_eval =
  content_files_of_def content_path_to_yaml_def skipped_def checkpoints_def with_pages_def
  index_loop.simps

text \<open>
  C2. The title of every node, parent or child, is derived with the split character
  given to \<^verbatim>\<open>build_toc\<close>. The code passes the character on for the parent of a directory
  only: a child page gets its title with the default \<^verbatim>\<open>_\<close>. In the directory \<^verbatim>\<open>book\<close> with
  \<^verbatim>\<open>first-page.md\<close> and \<^verbatim>\<open>my-page.md\<close> and the character \<^verbatim>\<open>-\<close>, whatever
  \<^verbatim>\<open>_filename_to_title\<close> is, the parent's title is made with \<^verbatim>\<open>-\<close> and the child's with
  \<^verbatim>\<open>_\<close>; with title derivation as the spec describes it the child is titled
  \<^verbatim>\<open>My-page\<close>, not \<^verbatim>\<open>My Page\<close>.
\<close>

theorem child_title_ignores_split_char:
  "fst (find_content_structure [''.md'', ''.ipynb''] f (parse_path ''book'') ''book''
          [File ''first-page.md'', File ''my-page.md''] CHR ''-'' None)
     = Inr (Some (Node (Some ''book/first-page'') (Some (f ''first-page'' CHR ''-'')) None False
                    (Some [Node (Some ''book/my-page'') (Some (f ''my-page'' CHR ''_'')) None
                             False None]))) \<and>
   spec_filename_to_title ''my-page'' CHR ''_'' = ''My-page'' \<and>
   spec_filename_to_title ''my-page'' CHR ''-'' = ''My Page''"
  by (simp add: build_eval path_eval spec_filename_to_title_def upper_char_def lower_char_def)

text \<open>
  C9. Generation sorts the entries of a directory, so the output does not depend on the
  order in which the file system lists them. The code does not sort: the same directory
  \<^verbatim>\<open>book\<close> with \<^verbatim>\<open>a.md\<close> and \<^verbatim>\<open>b.md\<close> gives the parent \<^verbatim>\<open>book/a\<close> when \<^verbatim>\<open>iterdir()\<close> lists
  \<^verbatim>\<open>a.md\<close> first and the parent \<^verbatim>\<open>book/b\<close> when it lists \<^verbatim>\<open>b.md\<close> first.
\<close>

theorem listing_order_decides_parent:
  "fst (find_content_structure [''.md'', ''.ipynb''] f (parse_path ''book'') ''book''
          [File ''a.md'', File ''b.md''] CHR ''_'' None)
     = Inr (Some (Node (Some ''book/a'') (Some (f ''a'' CHR ''_'')) None False
                    (Some [Node (Some ''book/b'') (Some (f ''b'' CHR ''_'')) None False None]))) \<and>
   fst (find_content_structure [''.md'', ''.ipynb''] f (parse_path ''book'') ''book''
          [File ''b.md'', File ''a.md''] CHR ''_'' None)
     = Inr (Some (Node (Some ''book/b'') (Some (f ''b'' CHR ''_'')) None False
                    (Some [Node (Some ''book/a'') (Some (f ''a'' CHR ''_'')) None False None])))"
  by (simp add: build_eval path_eval)

section \<open>The builder without state and exceptions\<close>

text \<open>
  On a file system whose entry names are not empty, no call of \<^verbatim>\<open>with_suffix\<close> raises, and
  the list \<^verbatim>\<open>skip_text\<close> only ever grows by copies of the checkpoint marker, which leaves
  the set of markers as it is after the first call. The result is then a function of the
  directory alone (\<open>dir_tree\<close>), and the list grows by one marker per call
  (\<open>dir_visits\<close>).
\<close>

fun names_ok :: "entry \<Rightarrow> bool" where
  "names_ok (File n) = (n \<noteq> [])"
| "names_ok (Dir n sub) = (n \<noteq> [] \<and> list_all names_ok sub)"

definition is_index :: "path \<Rightarrow> bool" where
  "is_index p = (path_name (cut_suffix p) = ''index'')"

fun sift :: "path list \<Rightarrow> path list \<times> path option" where
  "sift [] = ([], None)"
| "sift [x] = (if is_index x then ([], Some x) else ([x], None))"
| "sift (x # y # ys) =
     (if is_index x
        then (y # fst (sift ys), (case snd (sift ys) of None \<Rightarrow> Some x | Some z \<Rightarrow> Some z))
      else (x # fst (sift (y # ys)), snd (sift (y # ys))))"

lemma with_suffix_empty_named: "path_name p \<noteq> [] \<Longrightarrow> with_suffix_empty p = Inr (cut_suffix p)"
  by (simp add: with_suffix_empty_def)

lemma index_loop_sift:
  "\<forall>p\<in>set cf. path_name p \<noteq> [] \<Longrightarrow>
   index_loop ii cf fc =
     Inr (take ii cf @ fst (sift (drop ii cf)),
          (case snd (sift (drop ii cf)) of None \<Rightarrow> fc | Some z \<Rightarrow> Some z))"
proof (induction ii cf fc rule: index_loop.induct)
  case (1 ii cf fc)
  show ?case
  proof (cases "ii < length cf")
    case False
    then show ?thesis by (simp add: index_loop.simps)
  next
    case True
    then obtain x rest where d: "drop ii cf = x # rest"
      by (metis Cons_nth_drop_Suc)
    then have x: "x = cf ! ii" and rest: "rest = drop (Suc ii) cf"
      using True by (simp_all add: Cons_nth_drop_Suc [symmetric])
    have nm: "path_name (cf ! ii) \<noteq> []" using 1(3) True by simp
    note w = with_suffix_empty_named [OF nm]
    show ?thesis
    proof (cases "is_index x")
      case False
      then have ni: "path_name (cut_suffix (cf ! ii)) \<noteq> ''index''" by (simp add: is_index_def x)
      have "index_loop ii cf fc = index_loop (Suc ii) cf fc"
        using True w ni by (subst index_loop.simps) simp
      also have "\<dots> = Inr (take (Suc ii) cf @ fst (sift (drop (Suc ii) cf)),
          (case snd (sift (drop (Suc ii) cf)) of None \<Rightarrow> fc | Some z \<Rightarrow> Some z))"
        using 1(2) [OF True w ni] 1(3) by simp
      finally show ?thesis
        using False d True
        by (cases rest) (simp_all add: rest [symmetric] take_Suc_conv_app_nth x)
    next
      case yes: True
      then have ni: "path_name (cut_suffix (cf ! ii)) = ''index''" by (simp add: is_index_def x)
      let ?cf = "take ii cf @ rest"
      have names: "\<forall>p\<in>set (take ii cf @ drop (Suc ii) cf). path_name p \<noteq> []"
        using 1(3) by (auto dest: in_set_takeD in_set_dropD)
      have len: "length (take ii cf) = ii" using True by simp
      have "index_loop ii cf fc = index_loop (Suc ii) ?cf (Some x)"
        using True w ni by (subst index_loop.simps) (simp add: rest x)
      also have "\<dots> = Inr (take (Suc ii) ?cf @ fst (sift (drop (Suc ii) ?cf)),
          (case snd (sift (drop (Suc ii) ?cf)) of None \<Rightarrow> Some x | Some z \<Rightarrow> Some z))"
        using 1(1) [OF True w ni names] unfolding rest x .
      finally show ?thesis
        using yes d len
        by (cases rest) (simp_all split: option.splits)
    qed
  qed
qed

lemma path_name_child [simp]: "path_name (path_child p n) = n"
  by (simp add: path_name_def path_child_def)

lemma names_ok_entry_name: "names_ok e \<Longrightarrow> entry_name e \<noteq> []"
  by (cases e) auto

lemma content_files_named:
  "list_all names_ok listing \<Longrightarrow> f \<in> set (content_files_of supported p listing)
   \<Longrightarrow> path_name f \<noteq> []"
  by (auto simp: content_files_of_def list_all_iff names_ok_entry_name)

lemma path_name_cut: "path_name (cut_suffix p) = name_stem (path_name p)"
  by (simp add: cut_suffix_def path_name_def)

definition yaml_of :: "(string \<Rightarrow> char \<Rightarrow> string) \<Rightarrow> string \<Rightarrow> path \<Rightarrow> char \<Rightarrow> node" where
  "yaml_of ftt dir_name p split_char =
     Node (Some (path_str (cut_suffix (cut_suffix p))))
       (Some (if is_index p then ftt dir_name split_char
              else ftt (name_stem (path_name p)) split_char))
       None False None"

lemma content_path_to_yaml_named:
  "path_name p \<noteq> [] \<Longrightarrow>
   content_path_to_yaml ftt dn p c = Inr (yaml_of ftt dn p c)"
  by (simp add: content_path_to_yaml_def yaml_of_def with_suffix_empty_def path_name_cut
      stem_nonempty is_index_def)

lemma children_loop_named:
  "\<forall>p\<in>set cf. path_name p \<noteq> [] \<Longrightarrow>
   children_loop ftt dn skip cf
     = Inr (map (\<lambda>p. yaml_of ftt dn p CHR ''_'') (filter (\<lambda>p. \<not> skipped skip p) cf))"
  by (induction cf) (simp_all add: content_path_to_yaml_named)

lemma sift_subset: "set (fst (sift cf)) \<subseteq> set cf"
  by (induction cf rule: sift.induct) auto

lemma sift_found: "snd (sift cf) = Some f \<Longrightarrow> f \<in> set cf \<and> is_index f"
proof (induction cf arbitrary: f rule: sift.induct)
  case 1
  then show ?case by simp
next
  case (2 x)
  then show ?case by (simp split: if_splits)
next
  case (3 x y ys)
  show ?case
  proof (cases "is_index x")
    case False
    with 3 show ?thesis by simp
  next
    case True
    show ?thesis
    proof (cases "snd (sift ys)")
      case None
      with True "3.prems" show ?thesis by simp
    next
      case (Some z)
      with True "3.prems" have "f = z" by simp
      with "3.IH"(1) [OF True] Some show ?thesis by simp
    qed
  qed
qed

lemma sift_none: "snd (sift cf) = None \<Longrightarrow> fst (sift cf) = cf \<and> (\<forall>f\<in>set cf. \<not> is_index f)"
proof (induction cf rule: sift.induct)
  case 1
  then show ?case by simp
next
  case (2 x)
  then show ?case by (simp split: if_splits)
next
  case (3 x y ys)
  show ?case
  proof (cases "is_index x")
    case False
    with 3 show ?thesis by simp
  next
    case True
    with "3.prems" show ?thesis by (simp split: option.splits)
  qed
qed

lemma sift_some: "\<exists>f\<in>set cf. is_index f \<Longrightarrow> \<exists>f. snd (sift cf) = Some f"
  using sift_none [of cf] by (cases "snd (sift cf)") auto

text \<open>The parent file and the files left for the children loop.\<close>

definition pick :: "path list \<Rightarrow> path \<times> path list" where
  "pick cf =
     (case snd (sift cf) of
        Some f \<Rightarrow> (f, fst (sift cf))
      | None \<Rightarrow> (hd cf, tl cf))"

definition dir_node ::
  "(string \<Rightarrow> char \<Rightarrow> string) \<Rightarrow> (path \<Rightarrow> bool) \<Rightarrow> string \<Rightarrow> path list \<Rightarrow> char \<Rightarrow> node list
     \<Rightarrow> node option" where
  "dir_node ftt sk dn cf c below =
     (if cf = [] then None
      else
        let parent = yaml_of ftt dn (fst (pick cf)) c;
            ps = map (\<lambda>p. yaml_of ftt dn p CHR ''_'') (filter (\<lambda>p. \<not> sk p) (snd (pick cf))) @ below
        in Some (if ps = [] then parent else with_pages parent ps))"

fun entry_trees ::
  "string list \<Rightarrow> (string \<Rightarrow> char \<Rightarrow> string) \<Rightarrow> (path \<Rightarrow> bool) \<Rightarrow> char \<Rightarrow> path \<Rightarrow> entry \<Rightarrow> node list" where
  "entry_trees supported ftt sk c p (File n) = []"
| "entry_trees supported ftt sk c p (Dir n sub) =
     (if sk (path_child p n) then []
      else (case dir_node ftt sk n (content_files_of supported (path_child p n) sub) c
                   (concat (map (entry_trees supported ftt sk c (path_child p n)) sub)) of
              None \<Rightarrow> []
            | Some t \<Rightarrow> [t]))"

definition dir_tree ::
  "string list \<Rightarrow> (string \<Rightarrow> char \<Rightarrow> string) \<Rightarrow> (path \<Rightarrow> bool) \<Rightarrow> char \<Rightarrow> path \<Rightarrow> string \<Rightarrow> entry list
     \<Rightarrow> node option" where
  "dir_tree supported ftt sk c p dn listing =
     dir_node ftt sk dn (content_files_of supported p listing) c
       (concat (map (entry_trees supported ftt sk c p) listing))"

text \<open>The number of directories the recursion enters below an entry, and from a directory on.\<close>

fun entry_visits :: "string list \<Rightarrow> (path \<Rightarrow> bool) \<Rightarrow> path \<Rightarrow> entry \<Rightarrow> nat" where
  "entry_visits supported sk p (File n) = 0"
| "entry_visits supported sk p (Dir n sub) =
     (if sk (path_child p n) then 0
      else Suc (if content_files_of supported (path_child p n) sub = [] then 0
                else sum_list (map (entry_visits supported sk (path_child p n)) sub)))"

definition dir_visits :: "string list \<Rightarrow> (path \<Rightarrow> bool) \<Rightarrow> path \<Rightarrow> entry list \<Rightarrow> nat" where
  "dir_visits supported sk p listing =
     Suc (if content_files_of supported p listing = [] then 0
          else sum_list (map (entry_visits supported sk p) listing))"

lemma entry_trees_Dir:
  "entry_trees supported ftt sk c p (Dir n sub) =
     (if sk (path_child p n) then []
      else (case dir_tree supported ftt sk c (path_child p n) n sub of None \<Rightarrow> [] | Some t \<Rightarrow> [t]))"
  by (simp add: dir_tree_def)

lemma entry_visits_Dir:
  "entry_visits supported sk p (Dir n sub) =
     (if sk (path_child p n) then 0 else dir_visits supported sk (path_child p n) sub)"
  by (simp add: dir_visits_def)

lemma skipped_more:
  "skipped (given @ replicate k checkpoints @ [checkpoints]) = skipped (given @ [checkpoints])"
  by (rule ext) (auto simp: skipped_def)

lemma replicate_snoc: "replicate k x @ [x] = replicate (Suc k) x"
  by (simp add: replicate_append_same)

text \<open>What a call on a directory does, for a skip list that already had \<open>k\<close> calls append to it.\<close>

definition call_ok ::
  "string list \<Rightarrow> (string \<Rightarrow> char \<Rightarrow> string) \<Rightarrow> char \<Rightarrow> entry list \<Rightarrow> bool" where
  "call_ok supported ftt c listing =
     (\<forall>p dn given k.
        find_content_structure supported ftt p dn listing c (Some (given @ replicate k checkpoints))
          = (Inr (dir_tree supported ftt (skipped (given @ [checkpoints])) c p dn listing),
             given @ replicate (k + dir_visits supported (skipped (given @ [checkpoints])) p listing)
                       checkpoints))"

lemma folders_loop_pure:
  assumes "\<forall>e\<in>set es. \<forall>n sub. e = Dir n sub \<longrightarrow> call_ok supported ftt c sub"
  shows "folders_loop supported ftt p es c ps (given @ replicate (Suc k) checkpoints)
     = (Inr (ps @ concat (map (entry_trees supported ftt (skipped (given @ [checkpoints])) c p) es)),
        given @ replicate (Suc k + sum_list (map (entry_visits supported (skipped (given @ [checkpoints])) p) es))
                  checkpoints)"
  using assms
proof (induction es arbitrary: ps k)
  case Nil
  show ?case by simp
next
  case (Cons e es)
  let ?sk = "skipped (given @ [checkpoints])"
  have sk: "skipped (given @ replicate (Suc k) checkpoints) = ?sk"
    using skipped_more [of given k] by (simp add: replicate_append_same)
  have IH: "folders_loop supported ftt p es c ps' (given @ replicate (Suc k') checkpoints)
     = (Inr (ps' @ concat (map (entry_trees supported ftt ?sk c p) es)),
        given @ replicate (Suc k' + sum_list (map (entry_visits supported ?sk p) es)) checkpoints)"
    for ps' k'
    using Cons.IH Cons.prems by simp
  show ?case
  proof (cases e)
    case (File n)
    then show ?thesis using IH by simp
  next
    case (Dir n sub)
    show ?thesis
    proof (cases "?sk (path_child p n)")
      case True
      then show ?thesis using Dir IH sk by simp
    next
      case False
      from Cons.prems Dir have "call_ok supported ftt c sub" by simp
      then have call:
        "find_content_structure supported ftt (path_child p n) n sub c
           (Some (given @ replicate (Suc k) checkpoints))
         = (Inr (dir_tree supported ftt ?sk c (path_child p n) n sub),
            given @ replicate (Suc k + dir_visits supported ?sk (path_child p n) sub) checkpoints)"
        unfolding call_ok_def by blast
      obtain m where m: "dir_visits supported ?sk (path_child p n) sub = Suc m"
        by (simp add: dir_visits_def)
      have st: "given @ replicate (Suc k + Suc m) checkpoints
                  = given @ replicate (Suc (Suc k + m)) checkpoints"
        by simp
      show ?thesis
      proof (cases "dir_tree supported ftt ?sk c (path_child p n) n sub")
        case None
        show ?thesis
          using Dir False None call sk m IH [of ps "Suc k + m"]
          by (simp add: entry_trees_Dir entry_visits_Dir del: entry_trees.simps entry_visits.simps)
      next
        case (Some t)
        show ?thesis
          using Dir False Some call sk m IH [of "ps @ [t]" "Suc k + m"]
          by (simp add: entry_trees_Dir entry_visits_Dir del: entry_trees.simps entry_visits.simps)
      qed
    qed
  qed
qed

lemma index_loop_start:
  "\<forall>p\<in>set cf. path_name p \<noteq> [] \<Longrightarrow> sift cf = (kept, found) \<Longrightarrow>
   index_loop 0 cf None = Inr (kept, found)"
  by (simp add: index_loop_sift split: option.split)

lemma pick_named:
  assumes "\<forall>p\<in>set cf. path_name p \<noteq> []" "cf \<noteq> []"
  shows "path_name (fst (pick cf)) \<noteq> []" "\<forall>p\<in>set (snd (pick cf)). path_name p \<noteq> []"
proof -
  have "fst (pick cf) \<in> set cf \<and> set (snd (pick cf)) \<subseteq> set cf"
  proof (cases "snd (sift cf)")
    case None
    with assms(2) show ?thesis by (cases cf) (auto simp: pick_def)
  next
    case (Some f)
    with sift_found [OF Some] sift_subset [of cf] show ?thesis by (auto simp: pick_def)
  qed
  with assms(1) show "path_name (fst (pick cf)) \<noteq> []" "\<forall>p\<in>set (snd (pick cf)). path_name p \<noteq> []"
    by auto
qed

lemma call_ok_step:
  assumes sub: "\<forall>e\<in>set listing. \<forall>n sub. e = Dir n sub \<longrightarrow> call_ok supported ftt c sub"
    and names: "list_all names_ok listing"
  shows "call_ok supported ftt c listing"
  unfolding call_ok_def
proof (intro allI)
  fix p dn given k
  let ?sk = "skipped (given @ [checkpoints])"
  let ?cf = "content_files_of supported p listing"
  let ?skip1 = "given @ replicate (Suc k) checkpoints"
  have skip1: "(given @ replicate k checkpoints) @ [checkpoints] = ?skip1"
    by (simp add: replicate_append_same)
  have sk: "skipped ?skip1 = ?sk"
    using skipped_more [of given k] by (simp add: replicate_append_same)
  have named: "\<forall>f\<in>set ?cf. path_name f \<noteq> []"
    using content_files_named [OF names] by blast
  show "find_content_structure supported ftt p dn listing c (Some (given @ replicate k checkpoints))
          = (Inr (dir_tree supported ftt ?sk c p dn listing),
             given @ replicate (k + dir_visits supported ?sk p listing) checkpoints)"
  proof (cases "?cf = []")
    case True
    then show ?thesis
      by (simp add: dir_tree_def dir_node_def dir_visits_def replicate_append_same)
  next
    case False
    obtain first others where fo: "pick ?cf = (first, others)" by (cases "pick ?cf")
    from pick_named [OF named False] fo
    have fn: "path_name first \<noteq> []" and on: "\<forall>f\<in>set others. path_name f \<noteq> []"
      by simp_all
    obtain kept found where sf: "sift ?cf = (kept, found)" by (cases "sift ?cf")
    have chosen:
      "(case found of
          Some f \<Rightarrow> Inr (f, kept)
        | None \<Rightarrow> (case kept of [] \<Rightarrow> Inl IndexError | f # others \<Rightarrow> Inr (f, others)))
       = Inr (first, others)"
    proof (cases found)
      case None
      with sift_none [of ?cf] sf False fo show ?thesis
        by (cases ?cf) (simp_all add: pick_def)
    next
      case (Some f)
      with fo sf show ?thesis by (simp add: pick_def)
    qed
    have "find_content_structure supported ftt p dn listing c (Some (given @ replicate k checkpoints))
      = (Inr (Some (if map (\<lambda>p. yaml_of ftt dn p CHR ''_'') (filter (\<lambda>p. \<not> ?sk p) others)
                        @ concat (map (entry_trees supported ftt ?sk c p) listing) = []
                    then yaml_of ftt dn first c
                    else with_pages (yaml_of ftt dn first c)
                           (map (\<lambda>p. yaml_of ftt dn p CHR ''_'') (filter (\<lambda>p. \<not> ?sk p) others)
                            @ concat (map (entry_trees supported ftt ?sk c p) listing)))),
         given @ replicate (Suc k + sum_list (map (entry_visits supported ?sk p) listing)) checkpoints)"
      apply (subst find_content_structure.simps)
      apply (simp only: Let_def option.case skip1)
      using False
      by (simp add: index_loop_start [OF named sf] chosen content_path_to_yaml_named [OF fn]
          children_loop_named [OF on] folders_loop_pure [OF sub] sk
          del: find_content_structure.simps replicate.simps)
    then show ?thesis
      using False fo by (simp add: dir_tree_def dir_node_def dir_visits_def Let_def)
  qed
qed

lemma call_ok_entry:
  "case e of File n \<Rightarrow> True | Dir n sub \<Rightarrow> list_all names_ok sub \<longrightarrow> call_ok supported ftt c sub"
proof (induction e)
  case (File n)
  show ?case by simp
next
  case (Dir n sub)
  show ?case
  proof (simp, intro impI)
    assume names: "list_all names_ok sub"
    have "\<forall>e\<in>set sub. \<forall>m sub'. e = Dir m sub' \<longrightarrow> call_ok supported ftt c sub'"
    proof (intro ballI allI impI)
      fix e m sub' assume e: "e \<in> set sub" "e = Dir m sub'"
      with names have "list_all names_ok sub'" by (auto simp: list_all_iff)
      with Dir.IH [OF e(1)] e(2) show "call_ok supported ftt c sub'" by simp
    qed
    then show "call_ok supported ftt c sub" using names by (rule call_ok_step)
  qed
qed

lemma call_ok_named: "list_all names_ok listing \<Longrightarrow> call_ok supported ftt c listing"
  using call_ok_entry [where e = "Dir [] listing"] by simp

lemma find_content_structure_None:
  "find_content_structure supported ftt p dn listing c None
     = find_content_structure supported ftt p dn listing c (Some [])"
  by simp

text \<open>The list the caller passed, or the fresh one.\<close>

definition given_list :: "string list option \<Rightarrow> string list" where
  "given_list skip_text = (case skip_text of None \<Rightarrow> [] | Some given \<Rightarrow> given)"

lemma find_content_structure_pure:
  assumes "list_all names_ok listing"
  shows "find_content_structure supported ftt p dn listing c skip_text
     = (Inr (dir_tree supported ftt (skipped (given_list skip_text @ [checkpoints])) c p dn listing),
        given_list skip_text
          @ replicate (dir_visits supported (skipped (given_list skip_text @ [checkpoints])) p listing)
              checkpoints)"
proof -
  have "find_content_structure supported ftt p dn listing c skip_text
          = find_content_structure supported ftt p dn listing c
              (Some (given_list skip_text @ replicate 0 checkpoints))"
    by (cases skip_text) (simp_all add: given_list_def)
  then show ?thesis
    using call_ok_named [OF assms, of supported ftt c] unfolding call_ok_def
    by (metis add_0)
qed

subsection \<open>The skip list after a call\<close>

lemma build_toc_skip:
  "snd (build_toc supported ftt dump path_arg dn listing c skip_text)
     = snd (find_content_structure supported ftt (parse_path path_arg) dn listing c skip_text)"
  by (simp add: build_toc_def split: prod.split sum.split option.split
      del: find_content_structure.simps)

text \<open>
  C10. A \<^verbatim>\<open>skip_text\<close> list passed to \<^verbatim>\<open>_find_content_structure\<close> or to \<^verbatim>\<open>build_toc\<close> is
  changed in place: after the call it is the list passed followed by one checkpoint
  marker for every directory the recursion entered (at least the top directory), where
  the recursion enters the top directory and, below a directory that holds a content
  file, every sub-directory whose path contains no marker.
\<close>

theorem skip_text_grows_per_directory:
  assumes "list_all names_ok listing"
  shows "snd (find_content_structure supported ftt p dn listing c (Some given))
           = given @ replicate (dir_visits supported (skipped (given @ [checkpoints])) p listing)
                       checkpoints \<and>
         snd (build_toc supported ftt dump path_arg dn listing c (Some given))
           = given @ replicate (dir_visits supported (skipped (given @ [checkpoints]))
                                  (parse_path path_arg) listing)
                       checkpoints \<and>
         1 \<le> dir_visits supported (skipped (given @ [checkpoints])) p listing"
  unfolding build_toc_skip
  by (simp add: find_content_structure_pure [OF assms] given_list_def dir_visits_def
      del: find_content_structure.simps)

text \<open>
  A directory \<^verbatim>\<open>book\<close>: one content file, a folder \<^verbatim>\<open>sub\<close> without content of its own, a folder
  \<^verbatim>\<open>app\<close> with a page and a folder whose name holds the marker \<^verbatim>\<open>draft\<close>, and a checkpoint
  folder.
\<close>

definition example_listing :: "entry list" where
  "example_listing =
     [File ''a.md'', File ''notes.txt'',
      Dir ''sub'' [Dir ''deep'' [File ''x.md'']],
      Dir ''app'' [File ''z.md'', Dir ''draft_old'' [File ''y.md'']],
      Dir ''.ipynb_checkpoints'' [File ''a.md'']]"

lemmas visits_eval = dir_visits_def content_files_of_def skipped_def checkpoints_def

theorem skip_text_grows_per_directory_witness:
  "snd (find_content_structure [''.md'', ''.ipynb''] spec_filename_to_title (parse_path ''book'')
          ''book'' example_listing CHR ''_'' (Some [''draft'']))
     = [''draft'', ''.ipynb_checkpoints'', ''.ipynb_checkpoints'', ''.ipynb_checkpoints'']"
proof -
  have names: "list_all names_ok example_listing"
    by (simp add: example_listing_def)
  have "dir_visits [''.md'', ''.ipynb''] (skipped ([''draft''] @ [checkpoints])) (parse_path ''book'')
          example_listing = 3"
    by (simp add: example_listing_def visits_eval path_eval)
  with skip_text_grows_per_directory [OF names, of "[''.md'', ''.ipynb'']" spec_filename_to_title "parse_path ''book''"
      "''book''" "CHR ''_''" "[''draft'']"]
  show ?thesis
    by (simp add: checkpoints_def numeral_3_eq_3 del: find_content_structure.simps)
qed

subsection \<open>No empty \<^verbatim>\<open>pages\<close>\<close>

text \<open>The invariant of a node: the key \<^verbatim>\<open>pages\<close> is absent or holds at least one child.\<close>

definition no_empty_pages :: "node \<Rightarrow> bool" where
  "no_empty_pages page = (pages page \<noteq> Some [])"

lemma preorder_append: "preorder (xs @ ys) = preorder xs @ preorder ys"
  by (induction xs) simp_all

lemma preorder_concat: "preorder (concat xss) = concat (map preorder xss)"
  by (induction xss) (simp_all add: preorder_append)

lemma preorder_leaves:
  "preorder (map (\<lambda>p. yaml_of ftt dn p c) fs) = map (\<lambda>p. yaml_of ftt dn p c) fs"
  by (induction fs) (simp_all add: yaml_of_def get_pages_def)

lemma preorder_with_pages:
  "preorder [with_pages parent ps] = with_pages parent ps # preorder ps"
  by (simp add: with_pages_def get_pages_def)

lemma preorder_yaml: "preorder [yaml_of ftt dn p c] = [yaml_of ftt dn p c]"
  by (simp add: yaml_of_def get_pages_def)

lemma with_pages_fields [simp]:
  "node_file (with_pages parent ps) = node_file parent"
  "node_title (with_pages parent ps) = node_title parent"
  "pages (with_pages parent ps) = Some ps"
  by (simp_all add: with_pages_def)

lemma yaml_of_pages [simp]: "pages (yaml_of ftt dn p c) = None"
  by (simp add: yaml_of_def)

lemma dir_node_nodes:
  assumes "dir_node ftt sk dn cf c below = Some tree"
  shows "preorder [tree]
           = tree # map (\<lambda>p. yaml_of ftt dn p CHR ''_'') (filter (\<lambda>p. \<not> sk p) (snd (pick cf)))
               @ preorder below"
    and "node_file tree = node_file (yaml_of ftt dn (fst (pick cf)) c)"
    and "node_title tree = node_title (yaml_of ftt dn (fst (pick cf)) c)"
    and "no_empty_pages tree"
    and "cf \<noteq> []"
proof -
  let ?ps = "map (\<lambda>p. yaml_of ftt dn p CHR ''_'') (filter (\<lambda>p. \<not> sk p) (snd (pick cf))) @ below"
  let ?parent = "yaml_of ftt dn (fst (pick cf)) c"
  from assms show ne: "cf \<noteq> []" by (auto simp: dir_node_def split: if_splits)
  with assms have tree: "tree = (if ?ps = [] then ?parent else with_pages ?parent ?ps)"
    by (simp add: dir_node_def Let_def)
  show "preorder [tree]
           = tree # map (\<lambda>p. yaml_of ftt dn p CHR ''_'') (filter (\<lambda>p. \<not> sk p) (snd (pick cf)))
               @ preorder below"
  proof (cases "?ps = []")
    case True
    then have "(if ?ps = [] then ?parent else with_pages ?parent ?ps) = ?parent"
      by simp
    with tree have "tree = ?parent" by (simp only:)
    moreover from True have "filter (\<lambda>p. \<not> sk p) (snd (pick cf)) = []" "below = []" by simp_all
    ultimately show ?thesis by (simp add: preorder_yaml del: preorder.simps(2))
  next
    case False
    then have "(if ?ps = [] then ?parent else with_pages ?parent ?ps) = with_pages ?parent ?ps"
      by auto
    with tree have "tree = with_pages ?parent ?ps" by (simp only:)
    then show ?thesis
      by (simp only: preorder_with_pages preorder_append preorder_leaves)
  qed
  show "node_file tree = node_file ?parent" "node_title tree = node_title ?parent"
    unfolding tree by simp_all
  show "no_empty_pages tree"
    unfolding tree no_empty_pages_def by simp
qed

lemma yaml_no_empty_pages: "no_empty_pages (yaml_of ftt dn p c)"
  by (simp add: yaml_of_def no_empty_pages_def)

lemma entry_trees_no_empty_pages:
  "\<forall>m\<in>set (preorder (entry_trees supported ftt sk c p e)). no_empty_pages m"
proof (induction e arbitrary: p)
  case (File n)
  show ?case by simp
next
  case (Dir n sub)
  show ?case
  proof (cases "sk (path_child p n)")
    case True
    then show ?thesis by simp
  next
    case False
    let ?below = "concat (map (entry_trees supported ftt sk c (path_child p n)) sub)"
    have below: "\<forall>m\<in>set (preorder ?below). no_empty_pages m"
      using Dir.IH by (auto simp: preorder_concat)
    show ?thesis
    proof (cases "dir_node ftt sk n (content_files_of supported (path_child p n) sub) c ?below")
      case None
      with False show ?thesis by simp
    next
      case (Some tree)
      from dir_node_nodes(1,4) [OF Some] below yaml_no_empty_pages
      have "\<forall>m\<in>set (preorder [tree]). no_empty_pages m" by auto
      with False Some show ?thesis by simp
    qed
  qed
qed

lemma dir_tree_no_empty_pages:
  assumes "dir_tree supported ftt sk c p dn listing = Some tree"
  shows "\<forall>m\<in>set (preorder [tree]). no_empty_pages m"
proof -
  let ?below = "concat (map (entry_trees supported ftt sk c p) listing)"
  have below: "\<forall>m\<in>set (preorder ?below). no_empty_pages m"
    using entry_trees_no_empty_pages by (auto simp: preorder_concat)
  from dir_node_nodes(1,4) [OF assms [unfolded dir_tree_def]] below yaml_no_empty_pages
  show ?thesis by auto
qed

lemma update_indexname_nodes:
  assumes "truthy (globaltoc_path ap)"
    and "fst (update_indexname safe_load ap) = Inr ()"
  shows "\<exists>top. globaltoc (snd (update_indexname safe_load ap)) = TocDict top \<and>
           no_empty_pages top = (case safe_load (the (globaltoc_path ap)) of
                                   TocDict d \<Rightarrow> no_empty_pages d
                                 | TocList l \<Rightarrow> length l > 1 \<or> no_empty_pages (hd l)) \<and>
           set (preorder [top]) - {top} \<subseteq> set (toc_nodes (safe_load (the (globaltoc_path ap))))"
  using assms
  by (auto simp: update_indexname_def truthy_def no_empty_pages_def get_pages_def preorder_append
      split: option.splits toc.splits list.splits sum.splits if_splits)

lemma toc_nodes_head:
  "t = TocList l \<Longrightarrow> l \<noteq> [] \<Longrightarrow> hd l \<in> set (toc_nodes t)"
  "t = TocDict d \<Longrightarrow> d \<in> set (toc_nodes t)"
  by (cases l) simp_all

text \<open>
  C5 (as amended). Every node of a tree that generation returns has no empty \<^verbatim>\<open>pages\<close>.
  The loader does not check the nodes it loads: it writes \<^verbatim>\<open>pages\<close> only when the loaded
  list has further elements, and the tree it publishes has no empty \<^verbatim>\<open>pages\<close> whenever none
  of the loaded nodes has.
\<close>

theorem generated_and_loaded_pages_nonempty:
  "(list_all names_ok listing \<longrightarrow>
      (\<forall>tree. fst (find_content_structure supported ftt p dn listing c skip_text) = Inr (Some tree)
         \<longrightarrow> list_all no_empty_pages (preorder [tree]))) \<and>
   (truthy (globaltoc_path ap) \<and> fst (update_indexname safe_load ap) = Inr () \<and>
    list_all no_empty_pages (toc_nodes (safe_load (the (globaltoc_path ap))))
      \<longrightarrow> list_all no_empty_pages (toc_nodes (globaltoc (snd (update_indexname safe_load ap)))))"
proof (intro conjI impI allI)
  fix tree
  assume "list_all names_ok listing"
    and "fst (find_content_structure supported ftt p dn listing c skip_text) = Inr (Some tree)"
  then have "dir_tree supported ftt (skipped (given_list skip_text @ [checkpoints])) c p dn listing
               = Some tree"
    by (simp add: find_content_structure_pure del: find_content_structure.simps)
  from dir_tree_no_empty_pages [OF this] show "list_all no_empty_pages (preorder [tree])"
    by (simp add: list_all_iff del: preorder.simps)
next
  assume a: "truthy (globaltoc_path ap) \<and> fst (update_indexname safe_load ap) = Inr () \<and>
    list_all no_empty_pages (toc_nodes (safe_load (the (globaltoc_path ap))))"
  let ?loaded = "safe_load (the (globaltoc_path ap))"
  from a update_indexname_nodes [of ap safe_load] obtain top where
    top: "globaltoc (snd (update_indexname safe_load ap)) = TocDict top"
      "no_empty_pages top = (case ?loaded of
                                   TocDict d \<Rightarrow> no_empty_pages d
                                 | TocList l \<Rightarrow> length l > 1 \<or> no_empty_pages (hd l))"
      "set (preorder [top]) - {top} \<subseteq> set (toc_nodes ?loaded)"
    by blast
  from a have ok: "\<forall>m\<in>set (toc_nodes ?loaded). no_empty_pages m"
    by (simp add: list_all_iff)
  have "no_empty_pages top"
  proof (cases ?loaded)
    case (TocDict d)
    with toc_nodes_head(2) [OF TocDict] ok top(2) show ?thesis by simp
  next
    case (TocList l)
    show ?thesis
    proof (cases "length l > 1")
      case True
      with TocList top(2) show ?thesis by simp
    next
      case False
      from a TocList have "l \<noteq> []"
        by (auto simp: update_indexname_def truthy_def split: option.splits if_splits)
      from toc_nodes_head(1) [OF TocList this] ok TocList top(2) show ?thesis by simp
    qed
  qed
  with top(3) ok have "\<forall>m\<in>set (preorder [top]). no_empty_pages m" by blast
  then show "list_all no_empty_pages (toc_nodes (globaltoc (snd (update_indexname safe_load ap))))"
    by (simp add: top(1) list_all_iff del: preorder.simps)
qed

text \<open>
  C5 as stated fails for the loader: a file that holds the one-element list
  \<^verbatim>\<open>[{file: intro, pages: []}]\<close> is published with its empty \<^verbatim>\<open>pages\<close>.
\<close>

theorem loader_keeps_empty_pages:
  "\<not> list_all no_empty_pages
       (toc_nodes (globaltoc (snd (update_indexname
          (\<lambda>toc_path. TocList [Node (Some ''intro'') None None False (Some [])])
          (example_app ''.md'')))))"
  by (simp add: update_indexname_def example_app_def no_empty_pages_def get_pages_def path_eval)


text \<open>A table of contents written as a flat list, and the tree of the example directory.\<close>

definition flat_toc :: toc where
  "flat_toc =
     TocList [Node (Some ''intro.md'') (Some ''Introduction'') None False None,
              Node (Some ''ch1.md'') None None False None,
              Node (Some ''ch2.md'') None None False None]"

lemmas title_eval = spec_filename_to_title_def upper_char_def lower_char_def

lemma example_listing_tree:
  "fst (find_content_structure [''.md'', ''.ipynb''] spec_filename_to_title (parse_path ''book'')
          ''book'' example_listing CHR ''_'' None)
     = Inr (Some
        (Node (Some ''book/a'') (Some ''A'') None False
          (Some
            [Node (Some ''book/app/z'') (Some ''Z'') None False
              (Some
                [Node (Some ''book/app/draft_old/y'') (Some ''Y'') None
                  False None])])))"
  by (simp add: example_listing_def build_eval path_eval title_eval)

theorem generated_and_loaded_pages_nonempty_witness:
  "(\<exists>tree. fst (find_content_structure [''.md'', ''.ipynb''] spec_filename_to_title
                    (parse_path ''book'') ''book'' example_listing CHR ''_'' None) = Inr (Some tree) \<and>
           list_all no_empty_pages (preorder [tree])) \<and>
   list_all no_empty_pages
     (toc_nodes (globaltoc (snd (update_indexname (\<lambda>toc_path. flat_toc) (example_app ''.md'')))))"
proof -
  have names: "list_all names_ok example_listing"
    by (simp add: example_listing_def)
  have cfg: "truthy (globaltoc_path (example_app ''.md''))"
    by (rule example_app_simps)
  have ok: "fst (update_indexname (\<lambda>toc_path. flat_toc) (example_app ''.md'')) = Inr ()"
    by (simp add: update_indexname_def example_app_def flat_toc_def path_eval)
  have loaded: "list_all no_empty_pages
                  (toc_nodes ((\<lambda>toc_path. flat_toc) (the (globaltoc_path (example_app ''.md'')))))"
    by (simp add: flat_toc_def no_empty_pages_def get_pages_def)
  note inst = generated_and_loaded_pages_nonempty
    [of example_listing "[''.md'', ''.ipynb'']" spec_filename_to_title "parse_path ''book''" "''book''"
        "CHR ''_''" None "example_app ''.md''" "\<lambda>toc_path. flat_toc"]
  from inst names example_listing_tree
  have "list_all no_empty_pages (preorder [Node (Some ''book/a'') (Some ''A'') None False
          (Some
            [Node (Some ''book/app/z'') (Some ''Z'') None False
              (Some
                [Node (Some ''book/app/draft_old/y'') (Some ''Y'') None
                  False None])])])"
    by blast
  with example_listing_tree have
    "\<exists>tree. fst (find_content_structure [''.md'', ''.ipynb''] spec_filename_to_title
                    (parse_path ''book'') ''book'' example_listing CHR ''_'' None) = Inr (Some tree) \<and>
           list_all no_empty_pages (preorder [tree])"
    by blast
  moreover from inst cfg ok loaded
  have "list_all no_empty_pages
     (toc_nodes (globaltoc (snd (update_indexname (\<lambda>toc_path. flat_toc) (example_app ''.md'')))))"
    by blast
  ultimately show ?thesis by blast
qed

subsection \<open>The index page\<close>

text \<open>
  A directory \<^verbatim>\<open>my_book\<close> with an \<^verbatim>\<open>index\<close> notebook that is not listed first, and a folder
  with an \<^verbatim>\<open>index\<close> page of its own.
\<close>

definition index_listing :: "entry list" where
  "index_listing =
     [File ''zebra.md'', File ''index.ipynb'', File ''data.csv'',
      Dir ''part_one'' [File ''b.md'', File ''index.md'']]"

lemma cut_suffix_child: "cut_suffix (path_child p n) = path_child p (name_stem n)"
  by (simp add: cut_suffix_def path_child_def path_name_def)

lemma content_files_child:
  "f \<in> set (content_files_of supported p listing) \<longleftrightarrow>
     (\<exists>e\<in>set listing. f = path_child p (entry_name e) \<and> path_suffix f \<in> set supported)"
  by (auto simp: content_files_of_def)

lemma is_index_child: "is_index (path_child p n) = (name_stem n = ''index'')"
  by (simp add: is_index_def cut_suffix_child)

lemma yaml_of_index:
  assumes "is_index f" "f = path_child p n"
  shows "yaml_of ftt dn f c = Node (Some (path_str (path_child p ''index''))) (Some (ftt dn c)) None False None"
proof -
  have "name_stem ''index'' = ''index''" by (simp add: name_stem_def name_suffix_def)
  with assms show ?thesis
    by (simp add: yaml_of_def cut_suffix_child is_index_child)
qed

text \<open>
  C4. When a directory holds a content file whose stem is \<^verbatim>\<open>index\<close>, the call on that
  directory returns a parent node whose \<^verbatim>\<open>file\<close> is the directory's \<^verbatim>\<open>index\<close> path and whose
  title is derived, with the given split character, from the resolved name of the
  directory, not from the word \<^verbatim>\<open>index\<close>.
\<close>

theorem index_file_is_parent:
  assumes "list_all names_ok listing"
    and "\<exists>e\<in>set listing. path_suffix (path_child p (entry_name e)) \<in> set supported \<and>
                          name_stem (entry_name e) = ''index''"
  shows "\<exists>tree. fst (find_content_structure supported ftt p dn listing c skip_text) = Inr (Some tree) \<and>
           node_file tree = Some (path_str (path_child p ''index'')) \<and>
           node_title tree = Some (ftt dn c)"
proof -
  let ?cf = "content_files_of supported p listing"
  let ?sk = "skipped (given_list skip_text @ [checkpoints])"
  from assms(2) obtain e where e: "e \<in> set listing"
      "path_suffix (path_child p (entry_name e)) \<in> set supported" "name_stem (entry_name e) = ''index''"
    by blast
  then have "path_child p (entry_name e) \<in> set ?cf" "is_index (path_child p (entry_name e))"
    by (auto simp: content_files_child is_index_child)
  then have "\<exists>f\<in>set ?cf. is_index f" by blast
  then have ne: "?cf \<noteq> []" and "\<exists>f. snd (sift ?cf) = Some f"
    using sift_some [of ?cf] by auto
  then obtain f where f: "snd (sift ?cf) = Some f" by blast
  from sift_found [OF f] obtain n where n: "f = path_child p n" "is_index f"
    by (auto simp: content_files_child)
  have pick: "fst (pick ?cf) = f" using f by (simp add: pick_def)
  from ne obtain tree where tree: "dir_tree supported ftt ?sk c p dn listing = Some tree"
    by (auto simp: dir_tree_def dir_node_def Let_def)
  from dir_node_nodes(2,3) [OF tree [unfolded dir_tree_def]] pick yaml_of_index [OF n(2,1)]
  have "node_file tree = Some (path_str (path_child p ''index''))" "node_title tree = Some (ftt dn c)"
    by simp_all
  with tree show ?thesis
    by (simp add: find_content_structure_pure [OF assms(1)] del: find_content_structure.simps)
qed
theorem index_file_is_parent_witness:
  "\<exists>tree. fst (find_content_structure [''.md'', ''.ipynb''] spec_filename_to_title
                   (parse_path ''my_book'') ''my_book'' index_listing CHR ''_'' None) = Inr (Some tree) \<and>
          node_file tree = Some ''my_book/index'' \<and> node_title tree = Some ''My Book''"
proof -
  have names: "list_all names_ok index_listing"
    by (simp add: index_listing_def)
  have idx: "\<exists>e\<in>set index_listing.
               path_suffix (path_child (parse_path ''my_book'') (entry_name e)) \<in> set [''.md'', ''.ipynb''] \<and>
               name_stem (entry_name e) = ''index''"
    by (simp add: index_listing_def path_eval)
  have "path_str (path_child (parse_path ''my_book'') ''index'') = ''my_book/index''"
    "spec_filename_to_title ''my_book'' CHR ''_'' = ''My Book''"
    by (simp_all add: path_eval title_eval)
  with index_file_is_parent [OF names idx, of spec_filename_to_title "''my_book''" "CHR ''_''" None]
  show ?thesis by simp
qed

subsection \<open>Which files become nodes\<close>

text \<open>The file a node was made from determines its \<^verbatim>\<open>file\<close>: the path with the suffix cut twice.\<close>

definition node_file_of :: "path \<Rightarrow> string option" where
  "node_file_of f = Some (path_str (cut_suffix (cut_suffix f)))"

text \<open>The files the nodes of the tree are made from, in pre-order.\<close>

definition node_sources :: "(path \<Rightarrow> bool) \<Rightarrow> path list \<Rightarrow> path list \<Rightarrow> path list" where
  "node_sources sk cf below =
     (if cf = [] then [] else fst (pick cf) # filter (\<lambda>f. \<not> sk f) (snd (pick cf)) @ below)"

fun entry_sources :: "string list \<Rightarrow> (path \<Rightarrow> bool) \<Rightarrow> path \<Rightarrow> entry \<Rightarrow> path list" where
  "entry_sources supported sk p (File n) = []"
| "entry_sources supported sk p (Dir n sub) =
     (if sk (path_child p n) then []
      else node_sources sk (content_files_of supported (path_child p n) sub)
             (concat (map (entry_sources supported sk (path_child p n)) sub)))"

definition dir_sources :: "string list \<Rightarrow> (path \<Rightarrow> bool) \<Rightarrow> path \<Rightarrow> entry list \<Rightarrow> path list" where
  "dir_sources supported sk p listing =
     node_sources sk (content_files_of supported p listing)
       (concat (map (entry_sources supported sk p) listing))"

lemma node_file_yaml [simp]: "node_file (yaml_of ftt dn f c) = node_file_of f"
  by (simp add: yaml_of_def node_file_of_def)

lemma dir_node_sources:
  assumes "map node_file (preorder below) = map node_file_of srcs"
  shows "map node_file (preorder (case dir_node ftt sk dn cf c below of None \<Rightarrow> [] | Some t \<Rightarrow> [t]))
           = map node_file_of (node_sources sk cf srcs)"
proof (cases "dir_node ftt sk dn cf c below")
  case None
  then have "cf = []" by (simp add: dir_node_def Let_def split: if_splits)
  with None show ?thesis by (simp add: node_sources_def)
next
  case (Some tree)
  from dir_node_nodes(1,2,5) [OF Some] assms Some show ?thesis
    by (simp add: node_sources_def comp_def del: preorder.simps)
qed

lemma entry_trees_sources:
  "map node_file (preorder (entry_trees supported ftt sk c p e))
     = map node_file_of (entry_sources supported sk p e)"
proof (induction e arbitrary: p)
  case (File n)
  show ?case by simp
next
  case (Dir n sub)
  have below: "map node_file (preorder (concat (map (entry_trees supported ftt sk c (path_child p n)) sub)))
      = map node_file_of (concat (map (entry_sources supported sk (path_child p n)) sub))"
    using Dir.IH by (induction sub) (simp_all add: preorder_append)
  show ?case
    using dir_node_sources [OF below] by simp
qed

lemma dir_tree_sources:
  assumes "dir_tree supported ftt sk c p dn listing = Some tree"
  shows "map node_file (preorder [tree]) = map node_file_of (dir_sources supported sk p listing)"
proof -
  have below: "map node_file (preorder (concat (map (entry_trees supported ftt sk c p) listing)))
      = map node_file_of (concat (map (entry_sources supported sk p) listing))"
    by (induction listing) (simp_all add: preorder_append entry_trees_sources)
  from dir_node_sources [OF below, of ftt sk dn "content_files_of supported p listing" c] assms
  show ?thesis by (simp add: dir_tree_def dir_sources_def del: preorder.simps)
qed

text \<open>
  The parent file of a directory with the content files \<open>cf\<close>: the \<^verbatim>\<open>index\<close> file if there
  is one, the first content file otherwise.
\<close>

definition chosen :: "path list \<Rightarrow> path" where
  "chosen cf = (case filter is_index cf of [] \<Rightarrow> hd cf | x # others \<Rightarrow> x)"

text \<open>
  The content files of the directories the recursion works on: the top directory, and
  below a directory that holds a content file every sub-directory whose path holds no
  marker. A directory without content files contributes nothing and is not descended
  into. Each file is paired with whether it is the parent file of its directory.
\<close>

definition tagged_files :: "path list \<Rightarrow> (path \<times> bool) list \<Rightarrow> (path \<times> bool) list" where
  "tagged_files cf below = (if cf = [] then [] else map (\<lambda>f. (f, f = chosen cf)) cf @ below)"

fun entry_files :: "string list \<Rightarrow> (path \<Rightarrow> bool) \<Rightarrow> path \<Rightarrow> entry \<Rightarrow> (path \<times> bool) list" where
  "entry_files supported sk p (File n) = []"
| "entry_files supported sk p (Dir n sub) =
     (if sk (path_child p n) then []
      else tagged_files (content_files_of supported (path_child p n) sub)
             (concat (map (entry_files supported sk (path_child p n)) sub)))"

definition dir_files :: "string list \<Rightarrow> (path \<Rightarrow> bool) \<Rightarrow> path \<Rightarrow> entry list \<Rightarrow> (path \<times> bool) list" where
  "dir_files supported sk p listing =
     tagged_files (content_files_of supported p listing)
       (concat (map (entry_files supported sk p) listing))"

text \<open>
  A well-formed directory: the names of its entries are pairwise different, and at most
  one of its content files has the stem \<^verbatim>\<open>index\<close>; the same below it.
\<close>

definition dir_ok :: "string list \<Rightarrow> entry list \<Rightarrow> bool" where
  "dir_ok supported listing =
     (distinct (map entry_name listing) \<and>
      length (filter (\<lambda>e. name_suffix (entry_name e) \<in> set supported \<and>
                           name_stem (entry_name e) = ''index'') listing) \<le> 1)"

fun tree_ok :: "string list \<Rightarrow> entry \<Rightarrow> bool" where
  "tree_ok supported (File n) = True"
| "tree_ok supported (Dir n sub) = (dir_ok supported sub \<and> list_all (tree_ok supported) sub)"

lemma path_child_inject [simp]: "path_child p n = path_child p m \<longleftrightarrow> n = m"
  by (simp add: path_child_def)

lemma path_suffix_child [simp]: "path_suffix (path_child p n) = name_suffix n"
  by (simp add: path_suffix_def)

lemma content_files_map:
  "content_files_of supported p listing
     = map (\<lambda>e. path_child p (entry_name e))
         (filter (\<lambda>e. name_suffix (entry_name e) \<in> set supported) listing)"
  by (simp add: content_files_of_def filter_map comp_def)

lemma content_files_distinct:
  "dir_ok supported listing \<Longrightarrow> distinct (content_files_of supported p listing)"
  unfolding content_files_map dir_ok_def
  by (auto simp: distinct_map inj_on_def dest: distinct_map_filter)

lemma content_files_index:
  "filter is_index (content_files_of supported p listing)
     = map (\<lambda>e. path_child p (entry_name e))
         (filter (\<lambda>e. name_suffix (entry_name e) \<in> set supported \<and>
                       name_stem (entry_name e) = ''index'') listing)"
  unfolding content_files_map
  by (induction listing) (auto simp: is_index_child)

lemma content_files_one_index:
  "dir_ok supported listing \<Longrightarrow> length (filter is_index (content_files_of supported p listing)) \<le> 1"
  by (simp add: content_files_index dir_ok_def)

lemma sift_one_index:
  "length (filter is_index cf) \<le> 1 \<Longrightarrow>
   sift cf = (filter (\<lambda>f. \<not> is_index f) cf,
              (case filter is_index cf of [] \<Rightarrow> None | x # others \<Rightarrow> Some x))"
proof (induction cf rule: sift.induct)
  case 1
  show ?case by simp
next
  case (2 x)
  show ?case by simp
next
  case (3 x y ys)
  show ?case
  proof (cases "is_index x")
    case False
    with "3.prems" have "length (filter is_index (y # ys)) \<le> 1" by simp
    note ih = "3.IH"(3) [OF False this]
    from False show ?thesis by (simp add: ih)
  next
    case True
    with "3.prems" have none: "filter is_index (y # ys) = []" by simp
    then have y: "\<not> is_index y" and ys: "filter is_index ys = []"
      by (auto split: if_splits)
    from "3.IH"(1) [OF True] ys have "sift ys = (filter (\<lambda>f. \<not> is_index f) ys, None)" by simp
    with True y ys show ?thesis by simp
  qed
qed

lemma filter_hd_in: "filter P xs = x # others \<Longrightarrow> x \<in> set xs \<and> P x"
  by (induction xs) (auto split: if_splits)

lemma chosen_in: "cf \<noteq> [] \<Longrightarrow> chosen cf \<in> set cf"
  by (cases "filter is_index cf") (auto simp: chosen_def dest: filter_hd_in)

lemma pick_chosen:
  assumes "length (filter is_index cf) \<le> 1" "distinct cf" "cf \<noteq> []"
  shows "fst (pick cf) = chosen cf" "set (snd (pick cf)) = set cf - {chosen cf}"
    "distinct (snd (pick cf))"
proof -
  note s = sift_one_index [OF assms(1)]
  have pk: "pick cf = (chosen cf, if filter is_index cf = [] then tl cf
                                   else filter (\<lambda>f. \<not> is_index f) cf)"
    by (cases "filter is_index cf") (simp_all add: pick_def chosen_def s)
  show "fst (pick cf) = chosen cf" by (simp add: pk)
  show "distinct (snd (pick cf))" using assms(2) by (simp add: pk distinct_tl)
  show "set (snd (pick cf)) = set cf - {chosen cf}"
  proof (cases "filter is_index cf")
    case Nil
    then have "chosen cf = hd cf" "snd (pick cf) = tl cf" by (simp_all add: chosen_def pk)
    with assms(2,3) show ?thesis by (cases cf) auto
  next
    case (Cons x others)
    with assms(1) have one: "filter is_index cf = [x]" by simp
    have "is_index f \<longleftrightarrow> f = x" if "f \<in> set cf" for f
    proof
      assume "is_index f"
      with that have "f \<in> set (filter is_index cf)" by simp
      then show "f = x" unfolding one by simp
    next
      assume "f = x"
      with filter_hd_in [OF Cons] show "is_index f" by simp
    qed
    moreover have "chosen cf = x" using Cons by (simp add: chosen_def)
    ultimately show ?thesis using one by (auto simp: pk)
  qed
qed

lemma pick_subset:
  assumes "cf \<noteq> []"
  shows "fst (pick cf) \<in> set cf" "set (snd (pick cf)) \<subseteq> set cf"
proof -
  have "fst (pick cf) \<in> set cf \<and> set (snd (pick cf)) \<subseteq> set cf"
  proof (cases "snd (sift cf)")
    case None
    with assms show ?thesis by (cases cf) (auto simp: pick_def)
  next
    case (Some f)
    with sift_found [OF Some] sift_subset [of cf] show ?thesis by (auto simp: pick_def)
  qed
  then show "fst (pick cf) \<in> set cf" "set (snd (pick cf)) \<subseteq> set cf" by simp_all
qed

text \<open>The files among \<open>fs\<close> that are a parent file or hold no marker.\<close>

definition shown :: "(path \<Rightarrow> bool) \<Rightarrow> (path \<times> bool) list \<Rightarrow> path set" where
  "shown sk fs = {f. \<exists>par. (f, par) \<in> set fs \<and> (par \<or> \<not> sk f)}"

lemma shown_simps [simp]:
  "shown sk [] = {}"
  "shown sk (xs @ ys) = shown sk xs \<union> shown sk ys"
  by (auto simp: shown_def)

lemma shown_concat: "shown sk (concat xss) = (\<Union>xs\<in>set xss. shown sk xs)"
  by (induction xss) auto

lemma node_sources_set:
  assumes "length (filter is_index cf) \<le> 1" "distinct cf"
    and "set below_s = shown sk below_f"
  shows "set (node_sources sk cf below_s) = shown sk (tagged_files cf below_f)"
proof (cases "cf = []")
  case True
  then show ?thesis by (simp add: node_sources_def tagged_files_def)
next
  case False
  note pk = pick_chosen [OF assms(1,2) False]
  have "shown sk (map (\<lambda>f. (f, f = chosen cf)) cf) = {chosen cf} \<union> {f \<in> set cf - {chosen cf}. \<not> sk f}"
    using chosen_in [OF False] by (auto simp: shown_def)
  with False pk(1,2) assms(3) show ?thesis
    by (auto simp: node_sources_def tagged_files_def)
qed

lemma tree_ok_sub:
  "tree_ok supported (Dir n sub) \<Longrightarrow> e \<in> set sub \<Longrightarrow> tree_ok supported e"
  by (simp add: list_all_iff)

lemma entry_sources_set:
  "tree_ok supported e \<Longrightarrow>
   set (entry_sources supported sk p e) = shown sk (entry_files supported sk p e)"
proof (induction e arbitrary: p)
  case (File n)
  show ?case by simp
next
  case (Dir n sub)
  let ?p = "path_child p n"
  have below: "set (concat (map (entry_sources supported sk ?p) sub))
                 = shown sk (concat (map (entry_files supported sk ?p) sub))"
    using Dir.IH tree_ok_sub [OF Dir.prems] by (simp add: shown_concat)
  from Dir.prems have ok: "dir_ok supported sub" by simp
  show ?case
    using node_sources_set [OF content_files_one_index [OF ok] content_files_distinct [OF ok] below]
    by simp
qed

lemma dir_sources_set:
  assumes "dir_ok supported listing" "list_all (tree_ok supported) listing"
  shows "set (dir_sources supported sk p listing) = shown sk (dir_files supported sk p listing)"
proof -
  have below: "set (concat (map (entry_sources supported sk p) listing))
                 = shown sk (concat (map (entry_files supported sk p) listing))"
    using assms(2) entry_sources_set by (simp add: shown_concat list_all_iff)
  show ?thesis
    using node_sources_set [OF content_files_one_index [OF assms(1)]
        content_files_distinct [OF assms(1)] below]
    by (simp add: dir_sources_def dir_files_def)
qed

text \<open>A path strictly below the directory \<open>q\<close>.\<close>

definition under :: "path \<Rightarrow> path \<Rightarrow> bool" where
  "under q f = (root f = root q \<and> (\<exists>ms. ms \<noteq> [] \<and> parts f = parts q @ ms))"

lemma under_child: "under (path_child q n) f \<Longrightarrow> under q f"
  by (auto simp: under_def path_child_def)

lemma under_children_same:
  "under (path_child q n) f \<Longrightarrow> under (path_child q m) f \<Longrightarrow> n = m"
  by (auto simp: under_def path_child_def)

lemma child_not_under_child: "under (path_child q n) (path_child q m) \<Longrightarrow> False"
  by (auto simp: under_def path_child_def)

lemma content_files_children:
  "f \<in> set (content_files_of supported q listing) \<Longrightarrow> \<exists>m. f = path_child q m"
  by (auto simp: content_files_of_def)

lemma node_sources_cases:
  "f \<in> set (node_sources sk cf below) \<Longrightarrow> f \<in> set cf \<or> f \<in> set below"
  using pick_subset [of cf] by (auto simp: node_sources_def split: if_splits)

lemma entry_sources_under:
  "f \<in> set (entry_sources supported sk p e) \<Longrightarrow> under (path_child p (entry_name e)) f"
proof (induction e arbitrary: p f)
  case (File n)
  then show ?case by simp
next
  case (Dir n sub)
  let ?p = "path_child p n"
  from Dir.prems have "f \<in> set (content_files_of supported ?p sub) \<or>
      f \<in> set (concat (map (entry_sources supported sk ?p) sub))"
    by (auto dest: node_sources_cases split: if_splits)
  then show ?case
  proof
    assume "f \<in> set (content_files_of supported ?p sub)"
    then obtain m where "f = path_child ?p m" by (auto dest: content_files_children)
    then show ?thesis by (simp add: under_def path_child_def)
  next
    assume "f \<in> set (concat (map (entry_sources supported sk ?p) sub))"
    then obtain e where "e \<in> set sub" "f \<in> set (entry_sources supported sk ?p e)" by auto
    from Dir.IH [OF this] show ?thesis by (auto dest: under_child)
  qed
qed

lemma distinct_concat_entries:
  assumes "distinct (map entry_name es)"
    and "\<forall>e\<in>set es. distinct (g e)"
    and "\<forall>e\<in>set es. \<forall>f\<in>set (g e). under (path_child q (entry_name e)) f"
  shows "distinct (concat (map g es))"
  using assms
proof (induction es)
  case Nil
  show ?case by simp
next
  case (Cons e es)
  have "set (g e) \<inter> set (concat (map g es)) = {}"
  proof (rule ccontr)
    assume "set (g e) \<inter> set (concat (map g es)) \<noteq> {}"
    then obtain f e' where f: "f \<in> set (g e)" "e' \<in> set es" "f \<in> set (g e')" by auto
    with Cons.prems(3) have "under (path_child q (entry_name e)) f"
      "under (path_child q (entry_name e')) f" by auto
    then have "entry_name e = entry_name e'" by (rule under_children_same)
    with Cons.prems(1) f(2) show False by auto
  qed
  with Cons show ?case by simp
qed

lemma node_sources_distinct:
  assumes "length (filter is_index cf) \<le> 1" "distinct cf" "distinct below"
    and "set cf \<inter> set below = {}"
  shows "distinct (node_sources sk cf below)"
proof (cases "cf = []")
  case True
  then show ?thesis by (simp add: node_sources_def)
next
  case False
  note pk = pick_chosen [OF assms(1,2) False]
  from pk chosen_in [OF False] assms(3,4) False show ?thesis
    by (auto simp: node_sources_def)
qed

lemma sources_below_disjoint:
  "set (content_files_of supported q sub) \<inter> set (concat (map (entry_sources supported sk q) sub)) = {}"
proof (rule ccontr)
  assume "set (content_files_of supported q sub) \<inter> set (concat (map (entry_sources supported sk q) sub)) \<noteq> {}"
  then obtain f e where "f \<in> set (content_files_of supported q sub)"
      "f \<in> set (entry_sources supported sk q e)" by auto
  then show False
    by (auto dest!: content_files_children entry_sources_under child_not_under_child)
qed

lemma entry_sources_distinct:
  "tree_ok supported e \<Longrightarrow> distinct (entry_sources supported sk p e)"
proof (induction e arbitrary: p)
  case (File n)
  show ?case by simp
next
  case (Dir n sub)
  let ?p = "path_child p n"
  from Dir.prems have ok: "dir_ok supported sub" by simp
  have "distinct (concat (map (entry_sources supported sk ?p) sub))"
  proof (rule distinct_concat_entries)
    show "distinct (map entry_name sub)" using ok by (simp add: dir_ok_def)
    show "\<forall>e\<in>set sub. distinct (entry_sources supported sk ?p e)"
      using Dir.IH tree_ok_sub [OF Dir.prems] by blast
    show "\<forall>e\<in>set sub. \<forall>f\<in>set (entry_sources supported sk ?p e). under (path_child ?p (entry_name e)) f"
      using entry_sources_under by blast
  qed
  from node_sources_distinct [OF content_files_one_index [OF ok] content_files_distinct [OF ok]
      this sources_below_disjoint]
  show ?case by simp
qed

lemma dir_sources_distinct:
  assumes "dir_ok supported listing" "list_all (tree_ok supported) listing"
  shows "distinct (dir_sources supported sk p listing)"
proof -
  have "distinct (concat (map (entry_sources supported sk p) listing))"
  proof (rule distinct_concat_entries)
    show "distinct (map entry_name listing)" using assms(1) by (simp add: dir_ok_def)
    show "\<forall>e\<in>set listing. distinct (entry_sources supported sk p e)"
      using entry_sources_distinct assms(2) by (auto simp: list_all_iff)
    show "\<forall>e\<in>set listing. \<forall>f\<in>set (entry_sources supported sk p e). under (path_child p (entry_name e)) f"
      using entry_sources_under by blast
  qed
  from node_sources_distinct [OF content_files_one_index [OF assms(1)]
      content_files_distinct [OF assms(1)] this sources_below_disjoint]
  show ?thesis by (simp add: dir_sources_def)
qed

lemma count_list_distinct: "distinct xs \<Longrightarrow> x \<in> set xs \<Longrightarrow> count_list xs x = 1"
  by (induction xs) (auto simp: count_list_0_iff)

text \<open>
  C3 (as amended). In a directory tree whose entry names are pairwise different within
  each directory and that has at most one \<^verbatim>\<open>index\<close> content file per directory, the nodes of
  the generated tree are made from files \<open>srcs\<close>, one node per file in pre-order, such
  that: every content file of a directory the recursion works on whose path holds no
  skip marker is in \<open>srcs\<close> exactly once; a file whose path holds a marker and that is not
  the parent file of such a directory is not in \<open>srcs\<close>; and no file from outside these
  directories is in \<open>srcs\<close> (a directory that holds no content file of its own is pruned
  with everything below it).
\<close>

theorem content_files_appear_once:
  assumes "list_all names_ok listing"
    and "dir_ok supported listing" and "list_all (tree_ok supported) listing"
    and "fst (find_content_structure supported ftt p dn listing c skip_text) = Inr (Some tree)"
  shows "\<exists>srcs.
           map node_file (preorder [tree]) = map node_file_of srcs \<and>
           (\<forall>f. (\<exists>par. (f, par) \<in> set (dir_files supported
                                     (skipped (given_list skip_text @ [checkpoints])) p listing)) \<and>
                \<not> skipped (given_list skip_text @ [checkpoints]) f
                \<longrightarrow> count_list srcs f = 1) \<and>
           (\<forall>f. skipped (given_list skip_text @ [checkpoints]) f \<and>
                (f, True) \<notin> set (dir_files supported
                                     (skipped (given_list skip_text @ [checkpoints])) p listing)
                \<longrightarrow> count_list srcs f = 0) \<and>
           (\<forall>f. (\<forall>par. (f, par) \<notin> set (dir_files supported
                                     (skipped (given_list skip_text @ [checkpoints])) p listing))
                \<longrightarrow> count_list srcs f = 0)"
proof -
  let ?sk = "skipped (given_list skip_text @ [checkpoints])"
  let ?srcs = "dir_sources supported ?sk p listing"
  let ?files = "dir_files supported ?sk p listing"
  from assms(1,4) have "dir_tree supported ftt ?sk c p dn listing = Some tree"
    by (simp add: find_content_structure_pure del: find_content_structure.simps)
  then have nodes: "map node_file (preorder [tree]) = map node_file_of ?srcs"
    by (rule dir_tree_sources)
  note set = dir_sources_set [OF assms(2,3), of ?sk p]
  note dist = dir_sources_distinct [OF assms(2,3), of ?sk p]
  have once: "count_list ?srcs f = 1" if "\<exists>par. (f, par) \<in> set ?files" "\<not> ?sk f" for f
  proof -
    from that have "f \<in> shown ?sk ?files" by (auto simp: shown_def)
    with set dist show ?thesis by (simp add: count_list_distinct)
  qed
  have marked: "count_list ?srcs f = 0" if "?sk f" "(f, True) \<notin> set ?files" for f
  proof -
    from that have "f \<notin> shown ?sk ?files" by (auto simp: shown_def)
    with set show ?thesis by (simp add: count_list_0_iff)
  qed
  have outside: "count_list ?srcs f = 0" if "\<forall>par. (f, par) \<notin> set ?files" for f
  proof -
    from that have "f \<notin> shown ?sk ?files" by (auto simp: shown_def)
    with set show ?thesis by (simp add: count_list_0_iff)
  qed
  from nodes once marked outside show ?thesis by blast
qed

text \<open>
  C3 as stated fails: \<^verbatim>\<open>book/sub\<close> holds no content file of its own, so the call on it
  returns \<^verbatim>\<open>None\<close> and \<^verbatim>\<open>book/sub/deep/x.md\<close>, whose path holds no marker, gets no node.
\<close>

theorem barren_folder_hides_content:
  "fst (find_content_structure [''.md'', ''.ipynb''] spec_filename_to_title (parse_path ''book'')
          ''book'' [File ''a.md'', Dir ''sub'' [Dir ''deep'' [File ''x.md'']]] CHR ''_'' None)
     = Inr (Some (Node (Some ''book/a'') (Some ''A'') None False None)) \<and>
   path_str (path_child (path_child (path_child (parse_path ''book'') ''sub'') ''deep'') ''x.md'')
     = ''book/sub/deep/x.md'' \<and>
   \<not> skipped [checkpoints] (path_child (path_child (path_child (parse_path ''book'') ''sub'') ''deep'') ''x.md'') \<and>
   count_list (preorder [Node (Some ''book/a'') (Some ''A'') None False None])
     (Node (Some ''book/sub/deep/x'') (Some ''X'') None False None) = 0"
  by (simp add: build_eval path_eval title_eval get_pages_def)

text \<open>
  A directory with a page whose name holds the marker \<^verbatim>\<open>draft\<close>, a folder without content of
  its own and a folder with one page.
\<close>

definition marked_listing :: "entry list" where
  "marked_listing =
     [File ''a.md'', File ''draft_b.md'',
      Dir ''sub'' [Dir ''deep'' [File ''x.md'']],
      Dir ''app'' [File ''z.md'']]"

lemma marked_listing_tree:
  "fst (find_content_structure [''.md'', ''.ipynb''] spec_filename_to_title (parse_path ''book'')
          ''book'' marked_listing CHR ''_'' (Some [''draft'']))
     = Inr (Some (Node (Some ''book/a'') (Some ''A'') None False
                    (Some [Node (Some ''book/app/z'') (Some ''Z'') None False None])))"
  by (simp add: marked_listing_def build_eval path_eval title_eval)

lemma marked_listing_files:
  "dir_files [''.md'', ''.ipynb''] (skipped (given_list (Some [''draft'']) @ [checkpoints]))
     (parse_path ''book'') marked_listing
   = [(Path [] [''book'', ''a.md''], True), (Path [] [''book'', ''draft_b.md''], False),
      (Path [] [''book'', ''app'', ''z.md''], True)]"
  by (simp add: marked_listing_def dir_files_def tagged_files_def chosen_def is_index_def
      content_files_of_def skipped_def checkpoints_def given_list_def path_eval)

theorem content_files_appear_once_witness:
  "\<exists>srcs.
     map node_file
       (preorder [Node (Some ''book/a'') (Some ''A'') None False
                    (Some [Node (Some ''book/app/z'') (Some ''Z'') None False None])])
       = map node_file_of srcs \<and>
     count_list srcs (Path [] [''book'', ''app'', ''z.md'']) = 1 \<and>
     count_list srcs (Path [] [''book'', ''draft_b.md'']) = 0 \<and>
     count_list srcs (Path [] [''book'', ''sub'', ''deep'', ''x.md'']) = 0"
proof -
  have names: "list_all names_ok marked_listing"
    by (simp add: marked_listing_def)
  have ok: "dir_ok [''.md'', ''.ipynb''] marked_listing"
    "list_all (tree_ok [''.md'', ''.ipynb'']) marked_listing"
    by (simp_all add: marked_listing_def dir_ok_def path_eval)
  have sk: "\<not> skipped (given_list (Some [''draft'']) @ [checkpoints]) (Path [] [''book'', ''app'', ''z.md''])"
    "skipped (given_list (Some [''draft'']) @ [checkpoints]) (Path [] [''book'', ''draft_b.md''])"
    by (simp_all add: skipped_def checkpoints_def given_list_def path_eval)
  from content_files_appear_once [OF names ok marked_listing_tree]
  obtain srcs where srcs:
    "map node_file
       (preorder [Node (Some ''book/a'') (Some ''A'') None False
                    (Some [Node (Some ''book/app/z'') (Some ''Z'') None False None])])
       = map node_file_of srcs"
    "\<And>f. (\<exists>par. (f, par) \<in> set (dir_files [''.md'', ''.ipynb'']
                (skipped (given_list (Some [''draft'']) @ [checkpoints])) (parse_path ''book'') marked_listing)) \<Longrightarrow>
          \<not> skipped (given_list (Some [''draft'']) @ [checkpoints]) f \<Longrightarrow> count_list srcs f = 1"
    "\<And>f. skipped (given_list (Some [''draft'']) @ [checkpoints]) f \<Longrightarrow>
          (f, True) \<notin> set (dir_files [''.md'', ''.ipynb'']
                (skipped (given_list (Some [''draft'']) @ [checkpoints])) (parse_path ''book'') marked_listing) \<Longrightarrow>
          count_list srcs f = 0"
    "\<And>f. (\<forall>par. (f, par) \<notin> set (dir_files [''.md'', ''.ipynb'']
                (skipped (given_list (Some [''draft'']) @ [checkpoints])) (parse_path ''book'') marked_listing)) \<Longrightarrow>
          count_list srcs f = 0"
    by blast
  have "count_list srcs (Path [] [''book'', ''app'', ''z.md'']) = 1"
    by (rule srcs(2)) (auto simp: marked_listing_files sk)
  moreover have "count_list srcs (Path [] [''book'', ''draft_b.md'']) = 0"
    by (rule srcs(3)) (simp_all add: marked_listing_files sk)
  moreover have "count_list srcs (Path [] [''book'', ''sub'', ''deep'', ''x.md'']) = 0"
    by (rule srcs(4)) (simp add: marked_listing_files)
  ultimately show ?thesis using srcs(1) by blast
qed

text \<open>
  Two things the statement above leaves open. The parent file of a directory is never
  compared with the markers: with the marker \<^verbatim>\<open>draft\<close>, a directory that holds only
  \<^verbatim>\<open>draft_a.md\<close> still gets the node \<^verbatim>\<open>book/draft_a\<close>. And when a directory has two
  \<^verbatim>\<open>index\<close> files that are not listed next to each other, popping inside the loop makes
  the second one the parent and drops the first: \<^verbatim>\<open>index.md\<close> gets no node here, the one
  node \<^verbatim>\<open>book/index\<close> comes from \<^verbatim>\<open>index.ipynb\<close>.
\<close>

lemma marked_parent_is_kept:
  "fst (find_content_structure [''.md'', ''.ipynb''] spec_filename_to_title (parse_path ''book'')
          ''book'' [File ''draft_a.md''] CHR ''_'' (Some [''draft'']))
     = Inr (Some (Node (Some ''book/draft_a'') (Some ''Draft A'') None False None))"
  by (simp add: build_eval path_eval title_eval)

lemma second_index_drops_first:
  "fst (find_content_structure [''.md'', ''.ipynb''] spec_filename_to_title (parse_path ''book'')
          ''book'' [File ''index.md'', File ''a.md'', File ''index.ipynb''] CHR ''_'' None)
     = Inr (Some (Node (Some ''book/index'') (Some ''Book'') None False
                    (Some [Node (Some ''book/a'') (Some ''A'') None False None])))"
  by (simp add: build_eval path_eval title_eval)

end
